theory Spec2Isabelle
  imports Main "HOL-Library.Multiset"
begin

section \<open>Text and character classes\<close>

text \<open>
  Python's \<open>str\<close> is a sequence of Unicode code points. A character is modelled by its code
  point, a text by the list of its code points; \<open>ustr\<close> turns an ASCII literal into a text.
\<close>

type_synonym uchar = nat
type_synonym ustring = "uchar list"

definition ustr :: "string \<Rightarrow> ustring" where
  "ustr s = map of_char s"

definition in_range :: "char \<Rightarrow> char \<Rightarrow> uchar \<Rightarrow> bool" where
  "in_range lo hi c = (of_char lo \<le> c \<and> c \<le> of_char hi)"

definition is_chr :: "char \<Rightarrow> uchar \<Rightarrow> bool" where
  "is_chr ch c = (c = of_char ch)"

text \<open>\<open>[a-zA-Z]\<close>\<close>

definition is_letter :: "uchar \<Rightarrow> bool" where
  "is_letter c = (in_range CHR ''a'' CHR ''z'' c \<or> in_range CHR ''A'' CHR ''Z'' c)"

text \<open>\<open>[a-zA-Z_]\<close> and \<open>[a-zA-Z0-9_]\<close>, the identifier characters of the Python patterns.\<close>

definition py_ident_start :: "uchar \<Rightarrow> bool" where
  "py_ident_start c = (is_letter c \<or> is_chr CHR ''_'' c)"

definition py_ident_char :: "uchar \<Rightarrow> bool" where
  "py_ident_char c = (is_letter c \<or> in_range CHR ''0'' CHR ''9'' c \<or> is_chr CHR ''_'' c)"

text \<open>\<open>[a-zA-Z0-9_\.]\<close>, the continuation characters of the R identifier pattern.\<close>

definition r_ident_char :: "uchar \<Rightarrow> bool" where
  "r_ident_char c = (is_letter c \<or> in_range CHR ''0'' CHR ''9'' c \<or> is_chr CHR ''_'' c
     \<or> is_chr CHR ''.'' c)"

text \<open>
  \<open>\s\<close> in a \<open>str\<close> pattern: the code points for which \<open>str.isspace\<close> holds
  (U+0009..U+000D, U+001C..U+0020, U+0085, U+00A0, U+1680, U+2000..U+200A, U+2028, U+2029,
  U+202F, U+205F, U+3000).
\<close>

definition is_space :: "uchar \<Rightarrow> bool" where
  "is_space c = ((9 \<le> c \<and> c \<le> 13) \<or> (28 \<le> c \<and> c \<le> 32) \<or> c = 133 \<or> c = 160
     \<or> c = 5760 \<or> (8192 \<le> c \<and> c \<le> 8202) \<or> c = 8232 \<or> c = 8233 \<or> c = 8239
     \<or> c = 8287 \<or> c = 12288)"

text \<open>\<open>[+\-*/%@&|^]\<close>, the operator characters of the augmented assignment pattern.\<close>

definition aug_op_char :: "uchar \<Rightarrow> bool" where
  "aug_op_char c = (c \<in> set (ustr ''+-*/%@&|^''))"

text \<open>\<open>.\<close> under \<open>re.DOTALL\<close>: any character, the newline too.\<close>

definition any_char :: "uchar \<Rightarrow> bool" where
  "any_char c = True"

section \<open>The regular expressions of the \<open>re\<close> module that the patterns use\<close>

text \<open>
  The constructs that occur in the patterns: literal text, a character class, sequence,
  alternation \<open>|\<close>, the greedy \<open>*\<close>, the non-greedy \<open>*?\<close>, a capturing group and the negative
  lookahead \<open>(?!...)\<close>. \<open>+\<close> is one occurrence followed by \<open>*\<close>.
\<close>

datatype re =
    Lit ustring
  | Cls "uchar \<Rightarrow> bool"
  | Seq re re
  | Alt re re
  | Star re
  | Lazy re
  | Grp string re
  | NotAhead re

definition Plus :: "re \<Rightarrow> re" where
  "Plus a = Seq a (Star a)"

fun seqs :: "re list \<Rightarrow> re" where
  "seqs [] = Lit []"
| "seqs [r] = r"
| "seqs (r # rs) = Seq r (seqs rs)"

text \<open>
  A match state is the text still to be read and the groups captured so far (the most recent
  first). \<open>matches r st\<close> lists the states in which a match of \<open>r\<close> from \<open>st\<close> can end, in
  the order in which the backtracking matcher tries them: the first element is the match
  that \<open>re\<close> reports, the later ones are what it falls back to when the rest of the pattern
  fails.
\<close>

type_synonym groups = "(string \<times> ustring) list"
type_synonym mstate = "ustring \<times> groups"

function (sequential) matches :: "re \<Rightarrow> mstate \<Rightarrow> mstate list" where
  "matches (Lit l) (s, g) =
     (if take (length l) s = l then [(drop (length l) s, g)] else [])"
| "matches (Cls p) (s, g) =
     (case s of [] \<Rightarrow> [] | x # t \<Rightarrow> if p x then [(t, g)] else [])"
| "matches (Seq a b) st = concat (map (matches b) (matches a st))"
| "matches (Alt a b) st = matches a st @ matches b st"
| "matches (Star a) st =
     concat (map (matches (Star a))
       (filter (\<lambda>st'. length (fst st') < length (fst st)) (matches a st))) @ [st]"
| "matches (Lazy a) st =
     st # concat (map (matches (Lazy a))
       (filter (\<lambda>st'. length (fst st') < length (fst st)) (matches a st)))"
| "matches (Grp n a) (s, g) =
     map (\<lambda>(s', g'). (s', (n, take (length s - length s') s) # g')) (matches a (s, g))"
| "matches (NotAhead a) st = (if matches a st = [] then [st] else [])"
  by pat_completeness auto
termination
  by (relation "measures [\<lambda>(r, st). size r, \<lambda>(r, st). length (fst st)]") auto

lemmas matches_Star = matches.simps(5)
lemmas matches_Lazy = matches.simps(6)

declare matches.simps(5,6) [simp del]

text \<open>The match that the matcher reports from a state: the first one it finds, if any.\<close>

definition first_match :: "re \<Rightarrow> mstate \<Rightarrow> mstate option" where
  "first_match r st = (case matches r st of [] \<Rightarrow> None | m # _ \<Rightarrow> Some m)"

text \<open>
  \<open>match.group(name)\<close>. The patterns of this program set the groups that the scanners
  read on every match (shown below), so the value for a group that is not set is never used.
\<close>

definition group :: "groups \<Rightarrow> string \<Rightarrow> ustring" where
  "group g n = (case map_of g n of Some v \<Rightarrow> v | None \<Rightarrow> [])"

text \<open>
  \<open>pattern.finditer(text)\<close>: the matches from left to right, none overlapping another. At
  each position the matcher is tried; on a match the search goes on where the match ended,
  otherwise one character further. Every pattern of this program reads at least one
  character (shown below), so a match that reads nothing does not occur; the function
  steps over one character there.
\<close>

function finditer :: "re \<Rightarrow> ustring \<Rightarrow> groups list" where
  "finditer r s =
     (case matches r (s, []) of
        [] \<Rightarrow> (case s of [] \<Rightarrow> [] | _ # t \<Rightarrow> finditer r t)
      | (s', g) # _ \<Rightarrow>
          (if length s' < length s then g # finditer r s'
           else (case s of [] \<Rightarrow> [g] | _ # t \<Rightarrow> g # finditer r t)))"
  by pat_completeness auto
termination
  by (relation "measure (\<lambda>(r, s). length s)") auto

declare finditer.simps [simp del]

text \<open>
  Where the search of \<open>finditer\<close> is: \<open>scan_to r s t\<close> follows the search through the text
  \<open>s\<close> until the text still to be searched is \<open>t\<close>, and gives the matches found on the way;
  it is \<open>None\<close> when the search never stands at \<open>t\<close>, because a match that started before
  has read past the start of \<open>t\<close>.
\<close>

function scan_to :: "re \<Rightarrow> ustring \<Rightarrow> ustring \<Rightarrow> groups list option" where
  "scan_to r s t =
     (if s = t then Some []
      else (case matches r (s, []) of
              [] \<Rightarrow> (case s of [] \<Rightarrow> None | _ # u \<Rightarrow> scan_to r u t)
            | (s', g) # _ \<Rightarrow>
                (if length s' < length s then map_option ((#) g) (scan_to r s' t)
                 else (case s of [] \<Rightarrow> None | _ # u \<Rightarrow> map_option ((#) g) (scan_to r u t)))))"
  by pat_completeness auto
termination
  by (relation "measure (\<lambda>(r, s, t). length s)") auto

declare scan_to.simps [simp del]

section \<open>Dictionaries\<close>

text \<open>
  A Python \<open>dict\<close> keeps its keys in the order of their first insertion, and the rankings
  depend on that order: a dictionary is a list of (key, value) pairs with distinct keys.
  \<open>dict_get d k v\<close> is \<open>d.get(k, v)\<close>; \<open>dict_set d k v\<close> is \<open>d[k] = v\<close>, which keeps the place
  of a key that is present and appends a new one; \<open>d.items()\<close> is the list itself.
\<close>

type_synonym counts = "(ustring \<times> nat) list"

fun dict_get :: "counts \<Rightarrow> ustring \<Rightarrow> nat \<Rightarrow> nat" where
  "dict_get [] k v = v"
| "dict_get ((k', v') # d) k v = (if k' = k then v' else dict_get d k v)"

fun dict_set :: "counts \<Rightarrow> ustring \<Rightarrow> nat \<Rightarrow> counts" where
  "dict_set [] k v = [(k, v)]"
| "dict_set ((k', v') # d) k v = (if k' = k then (k', v) # d else (k', v') # dict_set d k v)"

text \<open>\<open>counts[var] = counts.get(var, 0) + n\<close>\<close>

definition add_count :: "counts \<Rightarrow> ustring \<Rightarrow> nat \<Rightarrow> counts" where
  "add_count d var n = dict_set d var (dict_get d var 0 + n)"

section \<open>The Python scanner (\<open>py_variable_counter.py\<close>)\<close>

definition IDENTIFIER_RAW :: re where
  "IDENTIFIER_RAW = Seq (Cls py_ident_start) (Star (Cls py_ident_char))"

definition IDENTIFIER_NAMED :: re where
  "IDENTIFIER_NAMED = Grp ''varname'' IDENTIFIER_RAW"

definition WHITESPACE :: re where
  "WHITESPACE = Star (Cls is_space)"

definition EQUALS_ASSIGN :: re where
  "EQUALS_ASSIGN =
     seqs [IDENTIFIER_NAMED, WHITESPACE, Lit (ustr ''=''), NotAhead (Lit (ustr ''=''))]"

definition WALRUS_ASSIGN :: re where
  "WALRUS_ASSIGN = seqs [IDENTIFIER_NAMED, WHITESPACE, Lit (ustr '':='')]"

definition MULTI_ASSIGN :: re where
  "MULTI_ASSIGN =
     seqs [Grp ''1'' (Seq IDENTIFIER_RAW
             (Plus (seqs [WHITESPACE, Lit (ustr '',''), WHITESPACE, IDENTIFIER_RAW]))),
           WHITESPACE, Lit (ustr ''='')]"

definition AUGMENTED_ASSIGN :: re where
  "AUGMENTED_ASSIGN =
     seqs [IDENTIFIER_NAMED, WHITESPACE,
           Grp ''operator''
             (Alt (Seq (Cls aug_op_char) (Lit (ustr ''='')))
             (Alt (Lit (ustr ''//=''))
             (Alt (Lit (ustr ''>>=''))
             (Alt (Lit (ustr ''<<=''))
                  (Lit (ustr ''**=''))))))]"

definition FOR_LOOP :: re where
  "FOR_LOOP =
     seqs [Lit (ustr ''for''), WHITESPACE, IDENTIFIER_NAMED, WHITESPACE, Lit (ustr ''in'')]"

definition VAR_EXTRACTOR :: re where
  "VAR_EXTRACTOR = Grp ''varname'' (Seq (Cls py_ident_start) (Star (Cls py_ident_char)))"

record py_patterns =
  equals :: re
  walrus :: re
  multi_assign :: re
  augmented :: re
  for_loop :: re
  var_name :: re

definition get_python_patterns :: py_patterns where
  "get_python_patterns =
     \<lparr>equals = EQUALS_ASSIGN, walrus = WALRUS_ASSIGN, multi_assign = MULTI_ASSIGN,
      augmented = AUGMENTED_ASSIGN, for_loop = FOR_LOOP, var_name = VAR_EXTRACTOR\<rparr>"

text \<open>The keywords that the loop over the \<open>equals\<close> matches skips.\<close>

definition py_keywords :: "ustring list" where
  "py_keywords = map ustr [''if'', ''while'', ''for'', ''elif'', ''return'', ''and'', ''or'',
     ''not'', ''is'', ''in'', ''None'', ''True'', ''False'']"

text \<open>The five loops of \<open>analyze_python_file\<close>, each over the matches of one pattern.\<close>

definition py_equals_loop :: "py_patterns \<Rightarrow> ustring \<Rightarrow> counts \<Rightarrow> counts" where
  "py_equals_loop patterns content local_counts =
     foldl (\<lambda>d m. let var = group m ''varname''
                   in if var \<notin> set py_keywords then add_count d var 1 else d)
       local_counts (finditer (equals patterns) content)"

definition py_walrus_loop :: "py_patterns \<Rightarrow> ustring \<Rightarrow> counts \<Rightarrow> counts" where
  "py_walrus_loop patterns content local_counts =
     foldl (\<lambda>d m. add_count d (group m ''varname'') 1)
       local_counts (finditer (walrus patterns) content)"

definition py_multi_loop :: "py_patterns \<Rightarrow> ustring \<Rightarrow> counts \<Rightarrow> counts" where
  "py_multi_loop patterns content local_counts =
     foldl (\<lambda>d m. foldl (\<lambda>d' var_match. add_count d' (group var_match ''varname'') 1)
                     d (finditer (var_name patterns) (group m ''1'')))
       local_counts (finditer (multi_assign patterns) content)"

definition py_augmented_loop :: "py_patterns \<Rightarrow> ustring \<Rightarrow> counts \<Rightarrow> counts" where
  "py_augmented_loop patterns content local_counts =
     foldl (\<lambda>d m. add_count d (group m ''varname'') 1)
       local_counts (finditer (augmented patterns) content)"

definition py_for_loop :: "py_patterns \<Rightarrow> ustring \<Rightarrow> counts \<Rightarrow> counts" where
  "py_for_loop patterns content local_counts =
     foldl (\<lambda>d m. add_count d (group m ''varname'') 1)
       local_counts (finditer (for_loop patterns) content)"

text \<open>The body of the \<open>try\<close> block, once the file has been read.\<close>

definition py_scan :: "py_patterns \<Rightarrow> ustring \<Rightarrow> counts" where
  "py_scan patterns content =
     py_for_loop patterns content
       (py_augmented_loop patterns content
         (py_multi_loop patterns content
           (py_walrus_loop patterns content
             (py_equals_loop patterns content []))))"

text \<open>
  The file system maps a path to the text that reading the file gives, or to \<open>None\<close> when
  \<open>open\<close> or \<open>read\<close> raises. Undecodable bytes are dropped (\<open>errors="ignore"\<close>), so decoding
  does not raise.

  The \<open>except\<close> branch prints a line that names the file and then returns the empty
  dictionary and \<open>False\<close>. The \<open>print\<close> can itself raise (\<open>UnicodeEncodeError\<close> when the
  line cannot be encoded for standard output, \<open>OSError\<close> when standard output cannot be
  written), and nothing catches that: the exception leaves the function. The console says
  for a path whether printing the line for that file returns.
\<close>

type_synonym path = ustring
type_synonym filesystem = "path \<Rightarrow> ustring option"
type_synonym console = "path \<Rightarrow> bool"

datatype error = PrintError

definition analyze_python_file ::
  "console \<Rightarrow> filesystem \<Rightarrow> path \<Rightarrow> py_patterns \<Rightarrow> error + counts \<times> bool" where
  "analyze_python_file out fs file_path patterns =
     (case fs file_path of
        Some content \<Rightarrow> Inr (py_scan patterns content, True)
      | None \<Rightarrow> (if out file_path then Inr ([], False) else Inl PrintError))"

section \<open>The R scanner (\<open>r_variable_counter.py\<close>)\<close>

definition R_IDENTIFIER :: re where
  "R_IDENTIFIER = Grp ''varname'' (Seq (Cls is_letter) (Star (Cls r_ident_char)))"

definition R_ASSIGN :: re where
  "R_ASSIGN = seqs [R_IDENTIFIER, WHITESPACE, Lit (ustr ''<-'')]"

definition R_WALRUS_ASSIGN :: re where
  "R_WALRUS_ASSIGN = seqs [R_IDENTIFIER, WHITESPACE, Lit (ustr '':='')]"

definition R_EQUALS_ASSIGN :: re where
  "R_EQUALS_ASSIGN = seqs [R_IDENTIFIER, WHITESPACE, Lit (ustr ''='')]"

definition MUTATE_PATTERN :: re where
  "MUTATE_PATTERN =
     seqs [Lit (ustr ''mutate''), Star (Cls is_space), Lit (ustr ''(''),
           Grp ''content'' (Lazy (Cls any_char)), Lit (ustr '')'')]"

record r_patterns =
  r_assign :: re
  r_walrus :: re
  r_equals :: re
  mutate :: re

definition get_r_patterns :: r_patterns where
  "get_r_patterns =
     \<lparr>r_assign = R_ASSIGN, r_walrus = R_WALRUS_ASSIGN, r_equals = R_EQUALS_ASSIGN,
      mutate = MUTATE_PATTERN\<rparr>"

definition r_assign_loop :: "r_patterns \<Rightarrow> ustring \<Rightarrow> counts \<Rightarrow> counts" where
  "r_assign_loop patterns content local_counts =
     foldl (\<lambda>d m. add_count d (group m ''varname'') 1)
       local_counts (finditer (r_assign patterns) content)"

definition r_walrus_loop :: "r_patterns \<Rightarrow> ustring \<Rightarrow> counts \<Rightarrow> counts" where
  "r_walrus_loop patterns content local_counts =
     foldl (\<lambda>d m. add_count d (group m ''varname'') 1)
       local_counts (finditer (r_walrus patterns) content)"

definition r_mutate_loop :: "r_patterns \<Rightarrow> ustring \<Rightarrow> counts \<Rightarrow> counts" where
  "r_mutate_loop patterns content local_counts =
     foldl (\<lambda>d mutate_block.
              foldl (\<lambda>d' var_match. add_count d' (group var_match ''varname'') 1)
                d (finditer (r_equals patterns) (group mutate_block ''content'')))
       local_counts (finditer (mutate patterns) content)"

definition r_scan :: "r_patterns \<Rightarrow> ustring \<Rightarrow> counts" where
  "r_scan patterns content =
     r_mutate_loop patterns content
       (r_walrus_loop patterns content
         (r_assign_loop patterns content []))"

definition analyze_r_file ::
  "console \<Rightarrow> filesystem \<Rightarrow> path \<Rightarrow> r_patterns \<Rightarrow> error + counts \<times> bool" where
  "analyze_r_file out fs file_path patterns =
     (case fs file_path of
        Some content \<Rightarrow> Inr (r_scan patterns content, True)
      | None \<Rightarrow> (if out file_path then Inr ([], False) else Inl PrintError))"

section \<open>Walking the directory tree\<close>

text \<open>
  What \<open>os.walk\<close> finds under a directory: the names of its files and its subdirectories,
  each with its own content, in the order of the listing.
\<close>

datatype dirtree = Dir (dir_files: "ustring list") (dir_subdirs: "(ustring \<times> dirtree) list")

text \<open>\<open>os.path.join(root, name)\<close> for a name that does not start with a slash.\<close>

definition path_join :: "path \<Rightarrow> ustring \<Rightarrow> path" where
  "path_join root name =
     (if root = [] \<or> last root = of_char CHR ''/'' then root @ name
      else root @ ustr ''/'' @ name)"

text \<open>\<open>s.endswith(suffix)\<close>\<close>

definition endswith :: "ustring \<Rightarrow> ustring \<Rightarrow> bool" where
  "endswith s suffix =
     (length suffix \<le> length s \<and> drop (length s - length suffix) s = suffix)"

definition py_should_skip_directory :: "ustring \<Rightarrow> bool" where
  "py_should_skip_directory dirname =
     (dirname \<in> set (map ustr [''.git'', ''venv'', ''.venv'', ''env'', ''__pycache__'',
        ''node_modules'', ''.pytest_cache'', ''.mypy_cache'', ''.tox'', ''dist'', ''build'',
        ''.idea'', ''.vscode'', ''.ipynb_checkpoints'']))"

definition r_should_skip_directory :: "ustring \<Rightarrow> bool" where
  "r_should_skip_directory dirname =
     (dirname \<in> set (map ustr [''.git'', ''venv'', ''.venv'', ''env'', ''__pycache__'',
        ''node_modules'', ''.pytest_cache'', ''.mypy_cache'', ''.tox'', ''dist'', ''build'',
        ''.idea'', ''.vscode'', ''.ipynb_checkpoints'', ''renv'']))"

text \<open>
  \<open>os.walk(directory, topdown=True)\<close> with the assignment \<open>dirs[:] = [d for d in dirs if not
  should_skip_directory(d)]\<close> in the loop body: the (root, files) pairs in the order of the
  walk, which does not enter a subdirectory that the assignment removed.
\<close>

fun os_walk :: "(ustring \<Rightarrow> bool) \<Rightarrow> path \<Rightarrow> dirtree \<Rightarrow> (path \<times> ustring list) list" where
  "os_walk skip root (Dir files dirs) =
     (root, files) #
     concat (map (\<lambda>(d, t). os_walk skip (path_join root d) t)
                 (filter (\<lambda>(d, t). \<not> skip d) dirs))"

section \<open>Aggregation (\<open>count_variables\<close>)\<close>

text \<open>
  The body of the loop over the files once a file has been analysed: the file's counts are
  added to the global counts, and the path is appended to the processed files when the
  analysis succeeded. Both modules have the same lines.
\<close>

definition merge_file :: "counts \<times> bool \<Rightarrow> path \<Rightarrow> counts \<times> path list \<Rightarrow> counts \<times> path list" where
  "merge_file result path acc =
     (case (result, acc) of ((file_counts, success), (counts, processed_files)) \<Rightarrow>
        (foldl (\<lambda>c (var, count). add_count c var count) counts file_counts,
         if success then processed_files @ [path] else processed_files))"

text \<open>
  \<open>sorted(items, key=..., reverse=True)\<close>. Python's sort is stable, and with \<open>reverse=True\<close>
  elements with equal keys still keep their original order: the list is reversed, sorted
  stably in ascending order and reversed again.
\<close>

definition sorted_reverse :: "('a \<Rightarrow> nat) \<Rightarrow> 'a list \<Rightarrow> 'a list" where
  "sorted_reverse key xs = rev (sort_key key (rev xs))"

text \<open>
  A \<open>for\<close> loop whose body may raise: the loop stops at the first exception, which then
  leaves the loop.
\<close>

fun fold_err :: "('a \<Rightarrow> 'b \<Rightarrow> error + 'a) \<Rightarrow> 'a \<Rightarrow> 'b list \<Rightarrow> error + 'a" where
  "fold_err f acc [] = Inr acc"
| "fold_err f acc (x # xs) = (case f acc x of Inl e \<Rightarrow> Inl e | Inr acc' \<Rightarrow> fold_err f acc' xs)"

definition py_file_step ::
  "console \<Rightarrow> filesystem \<Rightarrow> py_patterns \<Rightarrow> path \<Rightarrow> counts \<times> path list \<Rightarrow> ustring
     \<Rightarrow> error + counts \<times> path list" where
  "py_file_step out fs patterns root acc file =
     (if endswith file (ustr ''.py'')
      then (let path = path_join root file
            in case analyze_python_file out fs path patterns of
                 Inl e \<Rightarrow> Inl e
               | Inr result \<Rightarrow> Inr (merge_file result path acc))
      else Inr acc)"

text \<open>The state (\<open>counts\<close>, \<open>processed_files\<close>) after the loop over the walk.\<close>

definition py_walk_loop ::
  "console \<Rightarrow> filesystem \<Rightarrow> path \<Rightarrow> dirtree \<Rightarrow> error + counts \<times> path list" where
  "py_walk_loop out fs directory tree =
     fold_err (\<lambda>acc (root, files). fold_err (py_file_step out fs get_python_patterns root) acc files)
       ([], []) (os_walk py_should_skip_directory directory tree)"

definition py_count_variables ::
  "console \<Rightarrow> filesystem \<Rightarrow> path \<Rightarrow> dirtree \<Rightarrow> error + counts \<times> path list" where
  "py_count_variables out fs directory tree =
     (case py_walk_loop out fs directory tree of
        Inl e \<Rightarrow> Inl e
      | Inr (counts, processed_files) \<Rightarrow> Inr (sorted_reverse snd counts, processed_files))"

definition r_file_step ::
  "console \<Rightarrow> filesystem \<Rightarrow> r_patterns \<Rightarrow> path \<Rightarrow> counts \<times> path list \<Rightarrow> ustring
     \<Rightarrow> error + counts \<times> path list" where
  "r_file_step out fs patterns root acc file =
     (if endswith file (ustr ''.R'') \<or> endswith file (ustr ''.r'')
      then (let path = path_join root file
            in case analyze_r_file out fs path patterns of
                 Inl e \<Rightarrow> Inl e
               | Inr result \<Rightarrow> Inr (merge_file result path acc))
      else Inr acc)"

definition r_walk_loop ::
  "console \<Rightarrow> filesystem \<Rightarrow> path \<Rightarrow> dirtree \<Rightarrow> error + counts \<times> path list" where
  "r_walk_loop out fs directory tree =
     fold_err (\<lambda>acc (root, files). fold_err (r_file_step out fs get_r_patterns root) acc files)
       ([], []) (os_walk r_should_skip_directory directory tree)"

definition r_count_variables ::
  "console \<Rightarrow> filesystem \<Rightarrow> path \<Rightarrow> dirtree \<Rightarrow> error + counts \<times> path list" where
  "r_count_variables out fs directory tree =
     (case r_walk_loop out fs directory tree of
        Inl e \<Rightarrow> Inl e
      | Inr (counts, processed_files) \<Rightarrow> Inr (sorted_reverse snd counts, processed_files))"

section \<open>Shared variables (\<open>combiner.py\<close>)\<close>

text \<open>\<open>dict(results)\<close>: the pairs are inserted in order, a later pair of a key replaces its value.\<close>

definition dict_of_items :: "counts \<Rightarrow> counts" where
  "dict_of_items items = foldl (\<lambda>d (k, v). dict_set d k v) [] items"

text \<open>
  The loop \<open>for var in shared\<close>. \<open>py_dict[var]\<close> raises \<open>KeyError\<close> for a missing key, which
  nothing catches: the result is then \<open>None\<close>.
\<close>

fun shared_loop ::
  "counts \<Rightarrow> counts \<Rightarrow> ustring list \<Rightarrow> (ustring \<times> nat \<times> nat) list
     \<Rightarrow> (ustring \<times> nat \<times> nat) list option" where
  "shared_loop py_dict r_dict [] shared_with_counts = Some shared_with_counts"
| "shared_loop py_dict r_dict (var # vars) shared_with_counts =
     (case map_of py_dict var of
        None \<Rightarrow> None
      | Some py_count \<Rightarrow>
          (case map_of r_dict var of
             None \<Rightarrow> None
           | Some r_count \<Rightarrow>
               shared_loop py_dict r_dict vars (shared_with_counts @ [(var, py_count, r_count)])))"

text \<open>
  \<open>shared\<close> is a Python set, and the order in which the loop visits it is not defined by the
  language. \<open>iter_order\<close> gives that order for a set.
\<close>

definition find_shared_variables ::
  "(ustring set \<Rightarrow> ustring list) \<Rightarrow> counts \<Rightarrow> counts \<Rightarrow> (ustring \<times> nat \<times> nat) list option" where
  "find_shared_variables iter_order py_results r_results =
     (let py_vars = set (map fst py_results);
          r_vars = set (map fst r_results);
          shared = py_vars \<inter> r_vars;
          py_dict = dict_of_items py_results;
          r_dict = dict_of_items r_results
      in map_option (sorted_reverse (\<lambda>(var, py_count, r_count). py_count + r_count))
           (shared_loop py_dict r_dict (iter_order shared) []))"

section \<open>Occurrences and candidate files\<close>

text \<open>
  The identifiers that the loops of a scan count, one entry per counted occurrence, in the
  order in which the loops meet them.
\<close>

definition varnames :: "groups list \<Rightarrow> ustring list" where
  "varnames ms = map (\<lambda>m. group m ''varname'') ms"

definition py_occurrences :: "py_patterns \<Rightarrow> ustring \<Rightarrow> ustring list" where
  "py_occurrences patterns content =
     filter (\<lambda>var. var \<notin> set py_keywords) (varnames (finditer (equals patterns) content))
     @ varnames (finditer (walrus patterns) content)
     @ concat (map (\<lambda>m. varnames (finditer (var_name patterns) (group m ''1'')))
                   (finditer (multi_assign patterns) content))
     @ varnames (finditer (augmented patterns) content)
     @ varnames (finditer (for_loop patterns) content)"

definition r_occurrences :: "r_patterns \<Rightarrow> ustring \<Rightarrow> ustring list" where
  "r_occurrences patterns content =
     varnames (finditer (r_assign patterns) content)
     @ varnames (finditer (r_walrus patterns) content)
     @ concat (map (\<lambda>m. varnames (finditer (r_equals patterns) (group m ''content'')))
                   (finditer (mutate patterns) content))"

text \<open>The occurrences in the file at a path; a file that cannot be read has none.\<close>

definition py_file_occurrences :: "filesystem \<Rightarrow> path \<Rightarrow> ustring list" where
  "py_file_occurrences fs p =
     (case fs p of Some content \<Rightarrow> py_occurrences get_python_patterns content | None \<Rightarrow> [])"

definition r_file_occurrences :: "filesystem \<Rightarrow> path \<Rightarrow> ustring list" where
  "r_file_occurrences fs p =
     (case fs p of Some content \<Rightarrow> r_occurrences get_r_patterns content | None \<Rightarrow> [])"

text \<open>Counting a list of identifiers into a dictionary, one by one.\<close>

definition tally :: "counts \<Rightarrow> ustring list \<Rightarrow> counts" where
  "tally d vars = foldl (\<lambda>d' var. add_count d' var 1) d vars"

text \<open>
  The paths that the loop of \<open>count_variables\<close> analyses, in the order of the walk: the
  files with the extension of the language in the directories that the walk visits.
\<close>

definition py_candidate_paths :: "path \<Rightarrow> dirtree \<Rightarrow> path list" where
  "py_candidate_paths directory tree =
     concat (map (\<lambda>(root, files).
                    map (path_join root) (filter (\<lambda>file. endswith file (ustr ''.py'')) files))
                 (os_walk py_should_skip_directory directory tree))"

definition r_candidate_paths :: "path \<Rightarrow> dirtree \<Rightarrow> path list" where
  "r_candidate_paths directory tree =
     concat (map (\<lambda>(root, files).
                    map (path_join root)
                      (filter (\<lambda>file. endswith file (ustr ''.R'') \<or> endswith file (ustr ''.r''))
                         files))
                 (os_walk r_should_skip_directory directory tree))"

text \<open>
  What the analysis of a file returns when it returns: the scan of the text and \<open>True\<close>,
  or the empty mapping and \<open>False\<close> for a file that cannot be read.
\<close>

definition py_file_result :: "filesystem \<Rightarrow> path \<Rightarrow> py_patterns \<Rightarrow> counts \<times> bool" where
  "py_file_result fs file_path patterns =
     (case fs file_path of
        Some content \<Rightarrow> (py_scan patterns content, True)
      | None \<Rightarrow> ([], False))"

definition r_file_result :: "filesystem \<Rightarrow> path \<Rightarrow> r_patterns \<Rightarrow> counts \<times> bool" where
  "r_file_result fs file_path patterns =
     (case fs file_path of
        Some content \<Rightarrow> (r_scan patterns content, True)
      | None \<Rightarrow> ([], False))"

text \<open>The local mapping in what an analysis returned.\<close>

definition returned_counts :: "error + counts \<times> bool \<Rightarrow> counts" where
  "returned_counts result = (case result of Inr (local_counts, success) \<Rightarrow> local_counts | Inl e \<Rightarrow> [])"

text \<open>The analysis of the file at a path returns: the file is read, or the line is printed.\<close>

definition handled :: "console \<Rightarrow> filesystem \<Rightarrow> path \<Rightarrow> bool" where
  "handled out fs p = (fs p \<noteq> None \<or> out p)"

text \<open>The loop of \<open>count_variables\<close> over a list of paths, when every analysis returns.\<close>

definition scan_paths ::
  "(path \<Rightarrow> counts \<times> bool) \<Rightarrow> path list \<Rightarrow> counts \<times> path list \<Rightarrow> counts \<times> path list" where
  "scan_paths analyze paths acc = foldl (\<lambda>acc' p. merge_file (analyze p) p acc') acc paths"

text \<open>
  The state after the loop over the walk and the result of \<open>count_variables\<close>, when every
  analysis returns.
\<close>

definition py_fold :: "filesystem \<Rightarrow> path \<Rightarrow> dirtree \<Rightarrow> counts \<times> path list" where
  "py_fold fs directory tree =
     scan_paths (\<lambda>p. py_file_result fs p get_python_patterns)
       (py_candidate_paths directory tree) ([], [])"

definition py_result :: "filesystem \<Rightarrow> path \<Rightarrow> dirtree \<Rightarrow> counts \<times> path list" where
  "py_result fs directory tree =
     (sorted_reverse snd (fst (py_fold fs directory tree)), snd (py_fold fs directory tree))"

definition r_fold :: "filesystem \<Rightarrow> path \<Rightarrow> dirtree \<Rightarrow> counts \<times> path list" where
  "r_fold fs directory tree =
     scan_paths (\<lambda>p. r_file_result fs p get_r_patterns)
       (r_candidate_paths directory tree) ([], [])"

definition r_result :: "filesystem \<Rightarrow> path \<Rightarrow> dirtree \<Rightarrow> counts \<times> path list" where
  "r_result fs directory tree =
     (sorted_reverse snd (fst (r_fold fs directory tree)), snd (r_fold fs directory tree))"

section \<open>An example project\<close>

text \<open>
  A directory \<open>proj\<close> with the files \<open>a.py\<close>, \<open>b.py\<close> (which cannot be read),
  \<open>notes.txt\<close> and \<open>s.R\<close>, a subdirectory \<open>.git\<close> with the file \<open>hook.py\<close>, and a
  subdirectory \<open>pkg\<close> with the file \<open>c.py\<close>.
\<close>

definition example_tree :: dirtree where
  "example_tree =
     Dir [ustr ''a.py'', ustr ''b.py'', ustr ''notes.txt'', ustr ''s.R'']
         [(ustr ''.git'', Dir [ustr ''hook.py''] []),
          (ustr ''pkg'', Dir [ustr ''c.py''] [])]"

definition example_fs :: filesystem where
  "example_fs p =
     (if p = ustr ''proj/a.py'' then Some (ustr ''y = 1\<newline>x = 2\<newline>z = 3\<newline>x = 4\<newline>'')
      else if p = ustr ''proj/pkg/c.py'' then Some (ustr ''x = 5\<newline>'')
      else if p = ustr ''proj/s.R'' then Some (ustr ''x <- 1\<newline>y <- 2\<newline>mutate(z = x)\<newline>'')
      else if p = ustr ''proj/.git/hook.py'' then Some (ustr ''h = 0\<newline>'')
      else None)"

text \<open>A console on which every line can be printed.\<close>

definition example_console :: console where
  "example_console p = True"

text \<open>
  Standard output with the encoding UTF-8 and the error handler \<open>strict\<close>, as under an
  ordinary UTF-8 locale. A byte of a file name that is not valid UTF-8 is a surrogate code
  point (U+DC80 to U+DCFF) in the path that \<open>os.walk\<close> gives; a line with a surrogate
  cannot be encoded, and \<open>print\<close> raises \<open>UnicodeEncodeError\<close>.
\<close>

definition strict_console :: console where
  "strict_console p = list_all (\<lambda>c. c < 55296 \<or> 57343 < c) p"

text \<open>
  A directory \<open>data\<close> with the files \<open>a.py\<close>, a file that cannot be read and whose name
  \<open>bad\xff.py\<close> has the byte FF, which is the code point U+DCFF in the path, and
  \<open>c.py\<close>.
\<close>

definition bad_name :: ustring where
  "bad_name = ustr ''bad'' @ [56575] @ ustr ''.py''"

definition bad_tree :: dirtree where
  "bad_tree = Dir [ustr ''a.py'', bad_name, ustr ''c.py''] []"

definition bad_fs :: filesystem where
  "bad_fs p =
     (if p = ustr ''data/a.py'' then Some (ustr ''x = 1\<newline>'')
      else if p = ustr ''data/c.py'' then Some (ustr ''x = 2\<newline>'')
      else None)"

text \<open>
  An order in which a set of identifiers may be visited: its members among \<open>z\<close>, \<open>x\<close>
  and \<open>y\<close>, in this order.
\<close>

definition example_iter_order :: "ustring set \<Rightarrow> ustring list" where
  "example_iter_order S = filter (\<lambda>var. var \<in> S) [ustr ''z'', ustr ''x'', ustr ''y'']"

section \<open>Evaluating the scanners on concrete buffers\<close>

lemmas class_defs = in_range_def is_chr_def is_letter_def py_ident_start_def py_ident_char_def
  r_ident_char_def is_space_def aug_op_char_def any_char_def ustr_def

lemmas pattern_defs = IDENTIFIER_RAW_def IDENTIFIER_NAMED_def WHITESPACE_def EQUALS_ASSIGN_def
  WALRUS_ASSIGN_def MULTI_ASSIGN_def AUGMENTED_ASSIGN_def FOR_LOOP_def VAR_EXTRACTOR_def
  get_python_patterns_def Plus_def R_IDENTIFIER_def R_ASSIGN_def R_WALRUS_ASSIGN_def
  R_EQUALS_ASSIGN_def MUTATE_PATTERN_def get_r_patterns_def

lemmas loop_defs = py_scan_def py_equals_loop_def py_walrus_loop_def py_multi_loop_def
  py_augmented_loop_def py_for_loop_def py_keywords_def add_count_def group_def
  r_scan_def r_assign_loop_def r_walrus_loop_def r_mutate_loop_def

lemmas eval_simps = finditer.simps scan_to.simps matches_Star matches_Lazy class_defs
  pattern_defs loop_defs

lemma py_equals_multi_target:
  "py_equals_loop get_python_patterns (ustr ''a, b, c = 1, 2, 3'') [] = [(ustr ''c'', 1)]"
  by (simp add: eval_simps)

lemma py_multi_multi_target:
  "py_multi_loop get_python_patterns (ustr ''a, b, c = 1, 2, 3'') [] =
     [(ustr ''a'', 1), (ustr ''b'', 1), (ustr ''c'', 1)]"
  by (simp add: eval_simps)

lemma py_scan_multi_target:
  "py_scan get_python_patterns (ustr ''a, b, c = 1, 2, 3'') =
     [(ustr ''c'', 2), (ustr ''a'', 1), (ustr ''b'', 1)]"
  by (simp add: eval_simps)

lemma py_scan_simple:
  "py_scan get_python_patterns (ustr ''x = 1'') = [(ustr ''x'', 1)]"
  by (simp add: eval_simps)

lemma r_scan_simple: "r_scan get_r_patterns (ustr ''x = 1'') = []"
  by (simp add: eval_simps)

lemma r_scan_for: "r_scan get_r_patterns (ustr ''for i in x'') = []"
  by (simp add: eval_simps)

lemma r_scan_mutate:
  "r_scan get_r_patterns (ustr ''mutate(x = y + 1, z = 2)'') = [(ustr ''x'', 1), (ustr ''z'', 1)]"
  by (simp add: eval_simps)

section \<open>Lemmas on dictionaries and the scans\<close>

lemma dict_get_dict_set:
  "dict_get (dict_set d k v) k' x = (if k' = k then v else dict_get d k' x)"
  by (induction d) auto

lemma keys_dict_set:
  "map fst (dict_set d k v) = (if k \<in> set (map fst d) then map fst d else map fst d @ [k])"
  by (induction d) force+

lemma distinct_dict_set:
  "distinct (map fst d) \<Longrightarrow> distinct (map fst (dict_set d k v))"
  by (simp add: keys_dict_set)

lemma sum_dict_set:
  "sum_list (map snd (dict_set d k v)) + dict_get d k 0 = sum_list (map snd d) + v"
  by (induction d) auto

lemma dict_get_add_count:
  "dict_get (add_count d k n) k' 0 = dict_get d k' 0 + (if k' = k then n else 0)"
  by (simp add: add_count_def dict_get_dict_set)

lemma distinct_add_count:
  "distinct (map fst d) \<Longrightarrow> distinct (map fst (add_count d k n))"
  by (simp add: add_count_def distinct_dict_set)

lemma sum_add_count:
  "sum_list (map snd (add_count d k n)) = sum_list (map snd d) + n"
  using sum_dict_set [of d k "dict_get d k 0 + n"] by (simp add: add_count_def)

lemma dict_get_tally:
  "dict_get (tally d vars) k 0 = dict_get d k 0 + count_list vars k"
  unfolding tally_def
  by (induction vars arbitrary: d) (auto simp: dict_get_add_count)

lemma distinct_tally:
  "distinct (map fst d) \<Longrightarrow> distinct (map fst (tally d vars))"
  unfolding tally_def
  by (induction vars arbitrary: d) (auto simp: distinct_add_count)

lemma sum_tally:
  "sum_list (map snd (tally d vars)) = sum_list (map snd d) + length vars"
  unfolding tally_def
  by (induction vars arbitrary: d) (auto simp: sum_add_count)

lemma tally_append: "tally d (xs @ ys) = tally (tally d xs) ys"
  by (simp add: tally_def)

lemma foldl_varnames:
  "foldl (\<lambda>d m. add_count d (group m ''varname'') 1) d ms = tally d (varnames ms)"
  by (simp add: tally_def varnames_def foldl_map)

lemma foldl_guarded:
  "foldl (\<lambda>d m. let var = group m ''varname'' in if P var then add_count d var 1 else d) d ms
     = tally d (filter P (varnames ms))"
  unfolding tally_def varnames_def
  by (induction ms arbitrary: d) (auto simp: Let_def)

lemma foldl_tally_concat:
  "foldl (\<lambda>d m. tally d (g m)) d ms = tally d (concat (map g ms))"
  by (induction ms arbitrary: d) (simp_all add: tally_append, simp add: tally_def)

lemma py_scan_tally: "py_scan patterns content = tally [] (py_occurrences patterns content)"
  by (simp only: py_scan_def py_occurrences_def py_equals_loop_def py_walrus_loop_def
      py_multi_loop_def py_augmented_loop_def py_for_loop_def foldl_varnames foldl_guarded
      foldl_tally_concat tally_append)

lemma r_scan_tally: "r_scan patterns content = tally [] (r_occurrences patterns content)"
  by (simp only: r_scan_def r_occurrences_def r_assign_loop_def r_walrus_loop_def
      r_mutate_loop_def foldl_varnames foldl_tally_concat tally_append)

section \<open>Lemmas on the aggregation\<close>

lemma dict_get_filter:
  "distinct (map fst d) \<Longrightarrow> sum_list (map snd (filter (\<lambda>e. fst e = k) d)) = dict_get d k 0"
proof (induction d)
  case Nil
  then show ?case by simp
next
  case (Cons e d)
  obtain k' v' where e: "e = (k', v')" by (cases e)
  show ?case
  proof (cases "k' = k")
    case True
    with Cons.prems e have "k \<notin> fst ` set d" by auto
    then have "filter (\<lambda>e. fst e = k) d = []" by (auto simp: filter_empty_conv)
    with True e show ?thesis by simp
  next
    case False
    with Cons e show ?thesis by simp
  qed
qed

lemma dict_get_merge:
  "dict_get (foldl (\<lambda>c (var, count). add_count c var count) counts fc) k 0
     = dict_get counts k 0 + sum_list (map snd (filter (\<lambda>e. fst e = k) fc))"
  by (induction fc arbitrary: counts) (auto simp: dict_get_add_count)

lemma sum_merge:
  "sum_list (map snd (foldl (\<lambda>c (var, count). add_count c var count) counts fc))
     = sum_list (map snd counts) + sum_list (map snd fc)"
  by (induction fc arbitrary: counts) (auto simp: sum_add_count)

lemma distinct_merge:
  "distinct (map fst counts) \<Longrightarrow>
   distinct (map fst (foldl (\<lambda>c (var, count). add_count c var count) counts fc))"
  by (induction fc arbitrary: counts) (auto simp: distinct_add_count)

lemma scan_paths_Nil: "scan_paths an [] acc = acc"
  by (simp add: scan_paths_def)

lemma scan_paths_Cons: "scan_paths an (p # ps) acc = scan_paths an ps (merge_file (an p) p acc)"
  by (simp add: scan_paths_def)

lemma scan_paths_append:
  "scan_paths an (ps @ qs) acc = scan_paths an qs (scan_paths an ps acc)"
  by (simp add: scan_paths_def)

lemma fst_merge_file:
  "fst (merge_file res p acc)
     = foldl (\<lambda>c (var, count). add_count c var count) (fst acc) (fst res)"
  by (cases res; cases acc) (simp add: merge_file_def)

lemma snd_merge_file:
  "snd (merge_file res p acc) = (if snd res then snd acc @ [p] else snd acc)"
  by (cases res; cases acc) (simp add: merge_file_def)

lemma scan_paths_processed:
  "snd (scan_paths an ps acc) = snd acc @ filter (\<lambda>p. snd (an p)) ps"
  by (induction ps arbitrary: acc) (simp_all add: scan_paths_Nil scan_paths_Cons snd_merge_file)

lemma scan_paths_get:
  "(\<And>p. distinct (map fst (fst (an p)))) \<Longrightarrow>
   dict_get (fst (scan_paths an ps acc)) k 0
     = dict_get (fst acc) k 0 + sum_list (map (\<lambda>p. dict_get (fst (an p)) k 0) ps)"
  by (induction ps arbitrary: acc)
     (simp_all add: scan_paths_Nil scan_paths_Cons fst_merge_file dict_get_merge dict_get_filter)

lemma scan_paths_sum:
  "sum_list (map snd (fst (scan_paths an ps acc)))
     = sum_list (map snd (fst acc)) + sum_list (map (\<lambda>p. sum_list (map snd (fst (an p)))) ps)"
  by (induction ps arbitrary: acc)
     (simp_all add: scan_paths_Nil scan_paths_Cons fst_merge_file sum_merge)

lemma scan_paths_distinct:
  "distinct (map fst (fst acc)) \<Longrightarrow> distinct (map fst (fst (scan_paths an ps acc)))"
  by (induction ps arbitrary: acc)
     (simp_all add: scan_paths_Nil scan_paths_Cons fst_merge_file distinct_merge)

lemma merge_file_failed: "merge_file ([], False) p acc = acc"
  by (cases acc) (simp add: merge_file_def)

lemma scan_paths_skip_failed:
  assumes failed: "\<And>p. \<not> snd (an p) \<Longrightarrow> an p = ([], False)"
  shows "scan_paths an ps acc = scan_paths an (filter (\<lambda>p. snd (an p)) ps) acc"
proof (induction ps arbitrary: acc)
  case Nil
  show ?case by simp
next
  case (Cons p ps)
  show ?case
  proof (cases "snd (an p)")
    case True
    then show ?thesis by (simp add: scan_paths_Cons Cons.IH)
  next
    case False
    then have "merge_file (an p) p acc = acc"
      by (simp add: failed merge_file_failed)
    with False show ?thesis by (simp add: scan_paths_Cons Cons.IH)
  qed
qed

lemma py_file_result_distinct:
  "distinct (map fst (fst (py_file_result fs p patterns)))"
  by (simp add: py_file_result_def py_scan_tally distinct_tally split: option.split)

lemma r_file_result_distinct:
  "distinct (map fst (fst (r_file_result fs p patterns)))"
  by (simp add: r_file_result_def r_scan_tally distinct_tally split: option.split)

lemma py_file_result_sum:
  "sum_list (map snd (fst (py_file_result fs p get_python_patterns)))
     = length (py_file_occurrences fs p)"
  by (simp add: py_file_result_def py_file_occurrences_def py_scan_tally sum_tally
      split: option.split)

lemma r_file_result_sum:
  "sum_list (map snd (fst (r_file_result fs p get_r_patterns)))
     = length (r_file_occurrences fs p)"
  by (simp add: r_file_result_def r_file_occurrences_def r_scan_tally sum_tally
      split: option.split)

lemma py_file_result_success:
  "snd (py_file_result fs p patterns) = (fs p \<noteq> None)"
  by (simp add: py_file_result_def split: option.split)

lemma r_file_result_success:
  "snd (r_file_result fs p patterns) = (fs p \<noteq> None)"
  by (simp add: r_file_result_def split: option.split)

subsection \<open>The descending stable sort\<close>

lemma mset_sorted_reverse: "mset (sorted_reverse key xs) = mset xs"
  by (simp add: sorted_reverse_def)

lemma set_sorted_reverse: "set (sorted_reverse key xs) = set xs"
  by (simp add: sorted_reverse_def)

lemma sum_sorted_reverse:
  fixes f :: "'a \<Rightarrow> nat"
  shows "sum_list (map f (sorted_reverse key xs)) = sum_list (map f xs)"
proof -
  have "mset (map f (sorted_reverse key xs)) = mset (map f xs)"
    by (simp add: mset_sorted_reverse)
  then have "sum_mset (mset (map f (sorted_reverse key xs))) = sum_mset (mset (map f xs))"
    by (rule arg_cong)
  then show ?thesis by (simp only: sum_mset_sum_list)
qed

lemma distinct_sorted_reverse:
  "distinct (map fst (sorted_reverse key xs)) = distinct (map fst xs)"
proof -
  have "mset (map fst (sorted_reverse key xs)) = mset (map fst xs)"
    by (simp add: mset_sorted_reverse)
  then show ?thesis by (rule mset_eq_imp_distinct_iff)
qed

lemma dict_get_map_of:
  "dict_get d k x = (case map_of d k of Some v \<Rightarrow> v | None \<Rightarrow> x)"
  by (induction d) auto

lemma map_of_sorted_reverse:
  "distinct (map fst xs) \<Longrightarrow> map_of (sorted_reverse key xs) = map_of xs"
  by (rule map_of_inject_set [THEN iffD2])
     (simp_all add: distinct_sorted_reverse set_sorted_reverse)

lemma dict_get_sorted_reverse:
  "distinct (map fst xs) \<Longrightarrow> dict_get (sorted_reverse key xs) k x = dict_get xs k x"
  by (simp add: dict_get_map_of map_of_sorted_reverse)

lemma sorted_reverse_descending:
  "sorted_wrt (\<lambda>a b. key b \<le> key a) (sorted_reverse key xs)"
proof -
  have "sorted (map key (sort_key key (rev xs)))" by (rule sorted_sort_key)
  then have "sorted_wrt (\<lambda>a b. key a \<le> key b) (sort_key key (rev xs))"
    by (simp add: sorted_map)
  then show ?thesis by (simp add: sorted_reverse_def sorted_wrt_rev)
qed

lemma sorted_reverse_adjacent:
  "Suc i < length (sorted_reverse key xs) \<Longrightarrow>
   key (sorted_reverse key xs ! Suc i) \<le> key (sorted_reverse key xs ! i)"
  using sorted_wrt_nth_less [OF sorted_reverse_descending, of i "Suc i" key xs] by simp

lemma sorted_reverse_stable:
  "filter (\<lambda>e. key e = n) (sorted_reverse key xs) = filter (\<lambda>e. key e = n) xs"
  by (simp add: sorted_reverse_def rev_filter [symmetric] sort_key_stable)

section \<open>The example project, evaluated\<close>

lemmas walk_defs = py_result_def py_fold_def r_result_def r_fold_def scan_paths_def
  py_candidate_paths_def r_candidate_paths_def endswith_def path_join_def merge_file_def
  py_file_result_def r_file_result_def sorted_reverse_def py_should_skip_directory_def
  r_should_skip_directory_def example_tree_def example_fs_def

lemma example_py_walk:
  "py_fold example_fs (ustr ''proj'') example_tree =
     ([(ustr ''y'', 1), (ustr ''x'', 3), (ustr ''z'', 1)],
      [ustr ''proj/a.py'', ustr ''proj/pkg/c.py''])"
  by (simp add: walk_defs eval_simps)

lemma example_py_count:
  "py_result example_fs (ustr ''proj'') example_tree =
     ([(ustr ''x'', 3), (ustr ''y'', 1), (ustr ''z'', 1)],
      [ustr ''proj/a.py'', ustr ''proj/pkg/c.py''])"
  by (simp add: py_result_def example_py_walk) (simp add: sorted_reverse_def)

lemma example_r_walk:
  "r_fold example_fs (ustr ''proj'') example_tree =
     ([(ustr ''x'', 1), (ustr ''y'', 1), (ustr ''z'', 1)], [ustr ''proj/s.R''])"
  by (simp add: walk_defs eval_simps)

lemma example_r_count:
  "r_result example_fs (ustr ''proj'') example_tree =
     ([(ustr ''x'', 1), (ustr ''y'', 1), (ustr ''z'', 1)], [ustr ''proj/s.R''])"
  by (simp add: r_result_def example_r_walk) (simp add: sorted_reverse_def)

lemma example_py_candidates:
  "py_candidate_paths (ustr ''proj'') example_tree =
     [ustr ''proj/a.py'', ustr ''proj/b.py'', ustr ''proj/pkg/c.py'']"
  by (simp add: walk_defs class_defs)

lemma finditer_if_assign:
  "varnames (finditer (equals get_python_patterns) (ustr ''if = 3'')) = [ustr ''if'']"
  by (simp add: varnames_def eval_simps)

section \<open>Lemmas on \<open>count_variables\<close>\<close>

lemma sum_list_filter_zero:
  fixes f :: "'a \<Rightarrow> nat"
  assumes "\<And>x. \<not> P x \<Longrightarrow> f x = 0"
  shows "sum_list (map f (filter P xs)) = sum_list (map f xs)"
  by (induction xs) (simp_all add: assms)

lemma py_file_occurrences_failed: "\<not> (fs p \<noteq> None) \<Longrightarrow> length (py_file_occurrences fs p) = 0"
  by (simp add: py_file_occurrences_def)

lemma r_file_occurrences_failed: "\<not> (fs p \<noteq> None) \<Longrightarrow> length (r_file_occurrences fs p) = 0"
  by (simp add: r_file_occurrences_def)

lemma py_fold_distinct: "distinct (map fst (fst (py_fold fs directory tree)))"
  by (simp add: py_fold_def scan_paths_distinct)

lemma r_fold_distinct: "distinct (map fst (fst (r_fold fs directory tree)))"
  by (simp add: r_fold_def scan_paths_distinct)

lemma py_result_fst:
  "fst (py_result fs directory tree)
     = sorted_reverse snd (fst (py_fold fs directory tree))"
  by (simp add: py_result_def)

lemma py_result_snd:
  "snd (py_result fs directory tree)
     = filter (\<lambda>p. fs p \<noteq> None) (py_candidate_paths directory tree)"
proof -
  have "snd (py_result fs directory tree) = snd (py_fold fs directory tree)"
    by (simp add: py_result_def)
  then show ?thesis
    by (simp add: py_fold_def scan_paths_processed py_file_result_success)
qed

lemma r_result_fst:
  "fst (r_result fs directory tree)
     = sorted_reverse snd (fst (r_fold fs directory tree))"
  by (simp add: r_result_def)

lemma r_result_snd:
  "snd (r_result fs directory tree)
     = filter (\<lambda>p. fs p \<noteq> None) (r_candidate_paths directory tree)"
proof -
  have "snd (r_result fs directory tree) = snd (r_fold fs directory tree)"
    by (simp add: r_result_def)
  then show ?thesis
    by (simp add: r_fold_def scan_paths_processed r_file_result_success)
qed

lemma py_global_count:
  "dict_get (fst (py_result fs directory tree)) var 0
     = sum_list (map (\<lambda>p. dict_get (fst (py_file_result fs p get_python_patterns)) var 0)
         (py_candidate_paths directory tree))"
  by (simp add: py_result_fst dict_get_sorted_reverse py_fold_distinct)
     (simp add: py_fold_def scan_paths_get py_file_result_distinct)

lemma r_global_count:
  "dict_get (fst (r_result fs directory tree)) var 0
     = sum_list (map (\<lambda>p. dict_get (fst (r_file_result fs p get_r_patterns)) var 0)
         (r_candidate_paths directory tree))"
  by (simp add: r_result_fst dict_get_sorted_reverse r_fold_distinct)
     (simp add: r_fold_def scan_paths_get r_file_result_distinct)

lemma py_ranking_total:
  "sum_list (map snd (fst (py_result fs directory tree)))
     = sum_list (map (\<lambda>p. length (py_file_occurrences fs p))
         (snd (py_result fs directory tree)))"
  by (simp add: py_result_fst sum_sorted_reverse py_result_snd
      sum_list_filter_zero [OF py_file_occurrences_failed])
     (simp add: py_fold_def scan_paths_sum py_file_result_sum)

lemma r_ranking_total:
  "sum_list (map snd (fst (r_result fs directory tree)))
     = sum_list (map (\<lambda>p. length (r_file_occurrences fs p))
         (snd (r_result fs directory tree)))"
  by (simp add: r_result_fst sum_sorted_reverse r_result_snd
      sum_list_filter_zero [OF r_file_occurrences_failed])
     (simp add: r_fold_def scan_paths_sum r_file_result_sum)

lemma ranking_adjacent:
  assumes "Suc i < length (sorted_reverse snd d)"
  shows "snd (sorted_reverse snd d ! Suc i) \<le> snd (sorted_reverse snd d ! i)
     \<and> (snd (sorted_reverse snd d ! i) \<noteq> snd (sorted_reverse snd d ! Suc i)
          \<longrightarrow> snd (sorted_reverse snd d ! Suc i) < snd (sorted_reverse snd d ! i))"
  using sorted_reverse_adjacent [OF assms] by auto

lemma py_file_result_failed:
  "\<not> snd (py_file_result fs p patterns) \<Longrightarrow> py_file_result fs p patterns = ([], False)"
  by (simp add: py_file_result_def split: option.splits)

lemma r_file_result_failed:
  "\<not> snd (r_file_result fs p patterns) \<Longrightarrow> r_file_result fs p patterns = ([], False)"
  by (simp add: r_file_result_def split: option.splits)

lemma py_fold_readable:
  "py_fold fs directory tree
     = scan_paths (\<lambda>q. py_file_result fs q get_python_patterns)
         (filter (\<lambda>q. fs q \<noteq> None) (py_candidate_paths directory tree)) ([], [])"
  using scan_paths_skip_failed
    [of "\<lambda>q. py_file_result fs q get_python_patterns"
        "py_candidate_paths directory tree" "([], [])", OF py_file_result_failed]
  by (simp add: py_fold_def py_file_result_success)

lemma r_fold_readable:
  "r_fold fs directory tree
     = scan_paths (\<lambda>q. r_file_result fs q get_r_patterns)
         (filter (\<lambda>q. fs q \<noteq> None) (r_candidate_paths directory tree)) ([], [])"
  using scan_paths_skip_failed
    [of "\<lambda>q. r_file_result fs q get_r_patterns"
        "r_candidate_paths directory tree" "([], [])", OF r_file_result_failed]
  by (simp add: r_fold_def r_file_result_success)

lemma example_fs_b: "example_fs (ustr ''proj/b.py'') = None"
  by (simp add: example_fs_def ustr_def)

subsection \<open>The loops with a print that may raise\<close>

lemma analyze_python_file_cases:
  "analyze_python_file out fs p patterns
     = (if handled out fs p then Inr (py_file_result fs p patterns) else Inl PrintError)"
  by (simp add: analyze_python_file_def py_file_result_def handled_def split: option.split)

lemma analyze_r_file_cases:
  "analyze_r_file out fs p patterns
     = (if handled out fs p then Inr (r_file_result fs p patterns) else Inl PrintError)"
  by (simp add: analyze_r_file_def r_file_result_def handled_def split: option.split)

lemma returned_counts_py:
  "returned_counts (analyze_python_file out fs p patterns) = fst (py_file_result fs p patterns)"
  by (simp add: analyze_python_file_def py_file_result_def returned_counts_def split: option.split)

lemma returned_counts_r:
  "returned_counts (analyze_r_file out fs p patterns) = fst (r_file_result fs p patterns)"
  by (simp add: analyze_r_file_def r_file_result_def returned_counts_def split: option.split)

lemma py_files_loop:
  "fold_err (py_file_step out fs patterns root) acc files
     = (if list_all (handled out fs)
             (map (path_join root) (filter (\<lambda>file. endswith file (ustr ''.py'')) files))
        then Inr (scan_paths (\<lambda>p. py_file_result fs p patterns)
               (map (path_join root) (filter (\<lambda>file. endswith file (ustr ''.py'')) files)) acc)
        else Inl PrintError)"
  by (induction files arbitrary: acc)
     (simp_all add: scan_paths_Nil scan_paths_Cons py_file_step_def Let_def
        analyze_python_file_cases)

lemma r_files_loop:
  "fold_err (r_file_step out fs patterns root) acc files
     = (if list_all (handled out fs)
             (map (path_join root)
                (filter (\<lambda>file. endswith file (ustr ''.R'') \<or> endswith file (ustr ''.r'')) files))
        then Inr (scan_paths (\<lambda>p. r_file_result fs p patterns)
               (map (path_join root)
                  (filter (\<lambda>file. endswith file (ustr ''.R'') \<or> endswith file (ustr ''.r''))
                     files)) acc)
        else Inl PrintError)"
  by (induction files arbitrary: acc)
     (simp_all add: scan_paths_Nil scan_paths_Cons r_file_step_def Let_def
        analyze_r_file_cases)

lemma fold_err_scan_paths_concat:
  "fold_err (\<lambda>acc rf. if list_all ok (f rf) then Inr (scan_paths an (f rf) acc) else Inl e) acc w
     = (if list_all ok (concat (map f w)) then Inr (scan_paths an (concat (map f w)) acc)
        else Inl e)"
  by (induction w arbitrary: acc) (simp_all add: scan_paths_Nil scan_paths_append)

lemma py_walk_loop_cases:
  "py_walk_loop out fs directory tree
     = (if list_all (handled out fs) (py_candidate_paths directory tree)
        then Inr (py_fold fs directory tree) else Inl PrintError)"
  unfolding py_walk_loop_def py_candidate_paths_def py_fold_def
  by (simp add: py_files_loop case_prod_unfold fold_err_scan_paths_concat)

lemma r_walk_loop_cases:
  "r_walk_loop out fs directory tree
     = (if list_all (handled out fs) (r_candidate_paths directory tree)
        then Inr (r_fold fs directory tree) else Inl PrintError)"
  unfolding r_walk_loop_def r_candidate_paths_def r_fold_def
  by (simp add: r_files_loop case_prod_unfold fold_err_scan_paths_concat)

lemma py_count_variables_cases:
  "py_count_variables out fs directory tree
     = (if list_all (handled out fs) (py_candidate_paths directory tree)
        then Inr (py_result fs directory tree) else Inl PrintError)"
  by (simp add: py_count_variables_def py_walk_loop_cases py_result_def split: prod.split)

lemma r_count_variables_cases:
  "r_count_variables out fs directory tree
     = (if list_all (handled out fs) (r_candidate_paths directory tree)
        then Inr (r_result fs directory tree) else Inl PrintError)"
  by (simp add: r_count_variables_def r_walk_loop_cases r_result_def split: prod.split)

lemma py_count_variables_returns:
  assumes "py_count_variables out fs directory tree = Inr (ranking, processed)"
  shows "ranking = sorted_reverse snd (fst (py_fold fs directory tree))"
    and "processed = snd (py_fold fs directory tree)"
    and "py_walk_loop out fs directory tree = Inr (fst (py_fold fs directory tree), processed)"
  using assms
  by (auto simp add: py_count_variables_cases py_walk_loop_cases py_result_def prod_eq_iff
      split: if_splits)

lemma r_count_variables_returns:
  assumes "r_count_variables out fs directory tree = Inr (ranking, processed)"
  shows "ranking = sorted_reverse snd (fst (r_fold fs directory tree))"
    and "processed = snd (r_fold fs directory tree)"
    and "r_walk_loop out fs directory tree = Inr (fst (r_fold fs directory tree), processed)"
  using assms
  by (auto simp add: r_count_variables_cases r_walk_loop_cases r_result_def prod_eq_iff
      split: if_splits)

lemma py_walk_distinct:
  "py_walk_loop out fs directory tree = Inr (counts, processed) \<Longrightarrow> distinct (map fst counts)"
  using py_fold_distinct [of fs directory tree]
  by (auto simp: py_walk_loop_cases split: if_splits)

lemma r_walk_distinct:
  "r_walk_loop out fs directory tree = Inr (counts, processed) \<Longrightarrow> distinct (map fst counts)"
  using r_fold_distinct [of fs directory tree]
  by (auto simp: r_walk_loop_cases split: if_splits)

lemma example_handled:
  "list_all (handled example_console example_fs) ps"
  by (induction ps) (simp_all add: handled_def example_console_def)

lemma example_py_count_variables:
  "py_count_variables example_console example_fs (ustr ''proj'') example_tree =
     Inr ([(ustr ''x'', 3), (ustr ''y'', 1), (ustr ''z'', 1)],
          [ustr ''proj/a.py'', ustr ''proj/pkg/c.py''])"
  by (simp add: py_count_variables_cases example_handled example_py_count)

lemma example_r_count_variables:
  "r_count_variables example_console example_fs (ustr ''proj'') example_tree =
     Inr ([(ustr ''x'', 1), (ustr ''y'', 1), (ustr ''z'', 1)], [ustr ''proj/s.R''])"
  by (simp add: r_count_variables_cases example_handled example_r_count)

lemma example_py_walk_loop:
  "py_walk_loop example_console example_fs (ustr ''proj'') example_tree =
     Inr ([(ustr ''y'', 1), (ustr ''x'', 3), (ustr ''z'', 1)],
          [ustr ''proj/a.py'', ustr ''proj/pkg/c.py''])"
  by (simp add: py_walk_loop_cases example_handled example_py_walk)

lemma read_failure_printed:
  assumes "fs p = None" and "out p"
  shows "analyze_python_file out fs p patterns = Inr ([], False)"
    and "analyze_r_file out fs p r_pats = Inr ([], False)"
  using assms by (simp_all add: analyze_python_file_def analyze_r_file_def)

lemma read_failure_not_printed:
  assumes "fs p = None" and "\<not> out p"
  shows "analyze_python_file out fs p patterns = Inl PrintError"
    and "analyze_r_file out fs p r_pats = Inl PrintError"
  using assms by (simp_all add: analyze_python_file_def analyze_r_file_def)

lemma py_processed_files:
  assumes "py_count_variables out fs directory tree = Inr (ranking, processed)"
  shows "processed = filter (\<lambda>q. fs q \<noteq> None) (py_candidate_paths directory tree)"
    and "py_walk_loop out fs directory tree
           = Inr (scan_paths (\<lambda>q. py_file_result fs q get_python_patterns)
                    (filter (\<lambda>q. fs q \<noteq> None) (py_candidate_paths directory tree)) ([], []))"
  using py_count_variables_returns(2,3) [OF assms] py_result_snd [of fs directory tree]
    py_fold_readable [of fs directory tree]
  by (simp_all add: py_result_def prod_eq_iff)

lemma r_processed_files:
  assumes "r_count_variables out fs directory tree = Inr (ranking, processed)"
  shows "processed = filter (\<lambda>q. fs q \<noteq> None) (r_candidate_paths directory tree)"
    and "r_walk_loop out fs directory tree
           = Inr (scan_paths (\<lambda>q. r_file_result fs q get_r_patterns)
                    (filter (\<lambda>q. fs q \<noteq> None) (r_candidate_paths directory tree)) ([], []))"
  using r_count_variables_returns(2,3) [OF assms] r_result_snd [of fs directory tree]
    r_fold_readable [of fs directory tree]
  by (simp_all add: r_result_def prod_eq_iff)

lemma bad_candidates:
  "py_candidate_paths (ustr ''data'') bad_tree
     = [ustr ''data/a.py'', ustr ''data/'' @ bad_name, ustr ''data/c.py'']"
  by (simp add: py_candidate_paths_def bad_tree_def bad_name_def endswith_def path_join_def
      py_should_skip_directory_def ustr_def)

lemma bad_unreadable: "bad_fs (ustr ''data/'' @ bad_name) = None"
  by (simp add: bad_fs_def bad_name_def ustr_def)

lemma bad_not_printed: "\<not> strict_console (ustr ''data/'' @ bad_name)"
  by (simp add: strict_console_def bad_name_def ustr_def)

section \<open>Lemmas on the shared variables\<close>

lemma dict_set_fresh: "k \<notin> set (map fst d) \<Longrightarrow> dict_set d k v = d @ [(k, v)]"
  by (induction d) auto

lemma foldl_dict_set_distinct:
  "distinct (map fst (d @ xs)) \<Longrightarrow> foldl (\<lambda>d (k, v). dict_set d k v) d xs = d @ xs"
proof (induction xs arbitrary: d)
  case Nil
  then show ?case by simp
next
  case (Cons e xs)
  obtain k v where e: "e = (k, v)" by (cases e)
  from Cons.prems e have fresh: "k \<notin> set (map fst d)" by auto
  from Cons.prems e have "distinct (map fst ((d @ [(k, v)]) @ xs))" by simp
  then have "foldl (\<lambda>d (k, v). dict_set d k v) (d @ [(k, v)]) xs = (d @ [(k, v)]) @ xs"
    by (rule Cons.IH)
  with fresh e show ?case by (simp add: dict_set_fresh)
qed

lemma dict_of_items_distinct: "distinct (map fst xs) \<Longrightarrow> dict_of_items xs = xs"
  using foldl_dict_set_distinct [of "[]" xs] by (simp add: dict_of_items_def)

lemma shared_loop_present:
  assumes "\<And>var. var \<in> set vars \<Longrightarrow> var \<in> set (map fst py_dict) \<and> var \<in> set (map fst r_dict)"
  shows "shared_loop py_dict r_dict vars acc
     = Some (acc @ map (\<lambda>var. (var, dict_get py_dict var 0, dict_get r_dict var 0)) vars)"
  using assms
proof (induction vars arbitrary: acc)
  case Nil
  then show ?case by simp
next
  case (Cons var vars)
  from Cons.prems have "var \<in> set (map fst py_dict)" "var \<in> set (map fst r_dict)" by auto
  then obtain a b where ab: "map_of py_dict var = Some a" "map_of r_dict var = Some b"
    by (metis list.set_map map_of_eq_None_iff option.exhaust)
  have rest: "shared_loop py_dict r_dict vars (acc @ [(var, a, b)])
     = Some ((acc @ [(var, a, b)])
         @ map (\<lambda>var. (var, dict_get py_dict var 0, dict_get r_dict var 0)) vars)"
    by (rule Cons.IH) (use Cons.prems in auto)
  from ab rest show ?case by (simp add: dict_get_map_of)
qed

lemma filter_records_distinct:
  "distinct vars \<Longrightarrow> var \<in> set vars \<Longrightarrow>
   filter (\<lambda>rec. fst rec = var) (map (\<lambda>v. (v, f v, g v)) vars) = [(var, f var, g var)]"
proof (induction vars)
  case Nil
  then show ?case by simp
next
  case (Cons u vars)
  show ?case
  proof (cases "u = var")
    case True
    with Cons.prems have "var \<notin> set vars" by simp
    then have "filter (\<lambda>rec. fst rec = var) (map (\<lambda>v. (v, f v, g v)) vars) = []"
      by (auto simp: filter_empty_conv)
    with True show ?thesis by simp
  next
    case False
    with Cons show ?thesis by simp
  qed
qed

lemma filter_sorted_reverse_single:
  assumes "filter P xs = [x]"
  shows "filter P (sorted_reverse key xs) = [x]"
proof -
  have "mset (filter P (sorted_reverse key xs)) = mset (filter P xs)"
    by (simp add: mset_sorted_reverse)
  with assms have "mset (filter P (sorted_reverse key xs)) = {#x#}" by simp
  then show ?thesis by (simp only: mset_single_iff)
qed

lemma example_shared:
  "find_shared_variables example_iter_order
     (sorted_reverse snd [(ustr ''y'', 1), (ustr ''x'', 3), (ustr ''z'', 1)])
     (sorted_reverse snd [(ustr ''x'', 1), (ustr ''y'', 1), (ustr ''z'', 1)])
   = Some [(ustr ''x'', 3, 1), (ustr ''z'', 1, 1), (ustr ''y'', 1, 1)]"
  by (simp add: find_shared_variables_def example_iter_order_def sorted_reverse_def
      dict_of_items_def ustr_def)

section \<open>Lemmas on the matcher\<close>

subsection \<open>What a match leaves\<close>

lemma matches_subset:
  "st' \<in> set (matches r st) \<Longrightarrow> set (fst st') \<subseteq> set (fst st)"
proof (induction r st arbitrary: st' rule: matches.induct)
  case (1 l s g)
  then show ?case by (auto split: if_splits dest: in_set_dropD)
next
  case (2 p s g)
  then show ?case by (auto split: list.splits if_splits)
next
  case (3 a b st)
  from "3.prems" obtain m where m: "m \<in> set (matches a st)" "st' \<in> set (matches b m)"
    by auto
  from "3.IH"(1) [OF m(1)] "3.IH"(2) [OF m] show ?case by blast
next
  case (4 a b st)
  from "4.prems" have "st' \<in> set (matches a st) \<or> st' \<in> set (matches b st)" by simp
  with "4.IH" show ?case by blast
next
  case (5 a st)
  from "5.prems"
  have "st' \<in> set (concat (map (matches (Star a))
          (filter (\<lambda>m. length (fst m) < length (fst st)) (matches a st))) @ [st])"
    by (simp only: matches_Star)
  then consider "st' = st"
    | m where "m \<in> set (matches a st)" "length (fst m) < length (fst st)"
        "st' \<in> set (matches (Star a) m)"
    by auto
  then show ?case
  proof cases
    case 1
    then show ?thesis by simp
  next
    case 2
    from "5.IH"(1) [OF 2(1)] "5.IH"(2) [of m st'] 2 show ?thesis by auto
  qed
next
  case (6 a st)
  from "6.prems"
  have "st' \<in> set (st # concat (map (matches (Lazy a))
          (filter (\<lambda>m. length (fst m) < length (fst st)) (matches a st))))"
    by (simp only: matches_Lazy)
  then consider "st' = st"
    | m where "m \<in> set (matches a st)" "length (fst m) < length (fst st)"
        "st' \<in> set (matches (Lazy a) m)"
    by auto
  then show ?case
  proof cases
    case 1
    then show ?thesis by simp
  next
    case 2
    from "6.IH"(1) [OF 2(1)] "6.IH"(2) [of m st'] 2 show ?thesis by auto
  qed
next
  case (7 n a s g)
  from "7.prems" obtain m where m: "m \<in> set (matches a (s, g))" "fst st' = fst m"
    by auto
  from "7.IH" [OF m(1)] m(2) show ?case by simp
next
  case (8 a st)
  then show ?case by (auto split: if_splits)
qed

subsection \<open>Patterns that need a character\<close>

lemma Lit_needs:
  "c \<in> set l \<Longrightarrow> c \<notin> set s \<Longrightarrow> matches (Lit l) (s, g) = []"
proof -
  assume c: "c \<in> set l" "c \<notin> set s"
  have "take (length l) s \<noteq> l"
  proof
    assume "take (length l) s = l"
    then have "set l \<subseteq> set s" by (metis set_take_subset)
    with c show False by auto
  qed
  then show ?thesis by simp
qed

lemma Seq_needs_left:
  "matches a st = [] \<Longrightarrow> matches (Seq a b) st = []"
  by simp

lemma Seq_needs_right:
  assumes "\<And>s g. c \<notin> set s \<Longrightarrow> matches b (s, g) = []" and "c \<notin> set s"
  shows "matches (Seq a b) (s, g) = []"
proof -
  have "matches b m = []" if "m \<in> set (matches a (s, g))" for m
  proof -
    from matches_subset [OF that] assms(2) have "c \<notin> set (fst m)" by auto
    with assms(1) [of "fst m" "snd m"] show ?thesis by simp
  qed
  then show ?thesis by simp
qed

lemma finditer_Nil_no_match:
  "matches r ([], []) = [] \<Longrightarrow> finditer r [] = []"
  by (subst finditer.simps) simp

lemma finditer_skip:
  "matches r (x # s, []) = [] \<Longrightarrow> finditer r (x # s) = finditer r s"
  by (subst finditer.simps) simp

lemma finditer_needs:
  assumes "\<And>s g. c \<notin> set s \<Longrightarrow> matches r (s, g) = []" and "c \<notin> set s"
  shows "finditer r s = []"
  using assms(2)
proof (induction s)
  case Nil
  then show ?case by (simp add: finditer_Nil_no_match assms(1))
next
  case (Cons x s)
  then show ?case by (simp add: finditer_skip assms(1))
qed

lemma finditer_step:
  assumes "first_match r (s, []) = Some (s', g)" and "length s' < length s"
  shows "finditer r s = g # finditer r s'"
proof -
  from assms(1) obtain t where "matches r (s, []) = (s', g) # t"
    by (auto simp: first_match_def split: list.splits)
  with assms(2) show ?thesis by (subst finditer.simps) simp
qed

subsection \<open>The first match of a sequence\<close>

lemma first_Seq:
  assumes "first_match a st = Some m" and "first_match b m = Some h"
  shows "first_match (Seq a b) st = Some h"
  using assms by (auto simp: first_match_def split: list.splits)

lemma first_Lit: "first_match (Lit l) (l @ s, g) = Some (s, g)"
  by (simp add: first_match_def)

lemma first_Cls: "p x \<Longrightarrow> first_match (Cls p) (x # s, g) = Some (s, g)"
  by (simp add: first_match_def)

lemma Star_Cls_Cons:
  "p x \<Longrightarrow> matches (Star (Cls p)) (x # s, g) = matches (Star (Cls p)) (s, g) @ [(x # s, g)]"
  by (subst matches_Star) simp

lemma Star_Cls_stop:
  "s = [] \<or> \<not> p (hd s) \<Longrightarrow> matches (Star (Cls p)) (s, g) = [(s, g)]"
  by (subst matches_Star, cases s) auto

lemma first_Star_Cls:
  assumes "\<forall>x \<in> set xs. p x" and "ys = [] \<or> \<not> p (hd ys)"
  shows "first_match (Star (Cls p)) (xs @ ys, g) = Some (ys, g)"
  using assms(1)
proof (induction xs)
  case Nil
  with assms(2) show ?case by (simp add: first_match_def Star_Cls_stop)
next
  case (Cons x xs)
  then have "first_match (Star (Cls p)) (xs @ ys, g) = Some (ys, g)" by simp
  moreover from Cons.prems have "p x" by simp
  ultimately show ?case
    by (auto simp: first_match_def Star_Cls_Cons split: list.splits)
qed

lemma first_Grp:
  assumes "first_match a (pre @ s', g) = Some (s', g')"
  shows "first_match (Grp n a) (pre @ s', g) = Some (s', (n, pre) # g')"
  using assms by (auto simp: first_match_def split: list.splits)

section \<open>Lemmas on the patterns\<close>

subsection \<open>Character classes\<close>

lemma space_not_py_ident: "is_space c \<Longrightarrow> \<not> py_ident_char c"
  by (auto simp: class_defs)

lemma space_not_r_ident: "is_space c \<Longrightarrow> \<not> r_ident_char c"
  by (auto simp: class_defs)

lemma py_start_not_space: "py_ident_start c \<Longrightarrow> \<not> is_space c"
  by (auto simp: class_defs)

lemma py_start_ident: "py_ident_start c \<Longrightarrow> py_ident_char c"
  by (auto simp: class_defs)

lemma letter_r_ident: "is_letter c \<Longrightarrow> r_ident_char c"
  by (auto simp: class_defs)

lemma py_ident_not_special:
  "py_ident_char c \<Longrightarrow> c \<noteq> of_char CHR ''<'' \<and> c \<noteq> of_char CHR '':'' \<and> c \<noteq> of_char CHR ''(''"
  by (auto simp: class_defs)

lemma r_ident_not_special:
  "r_ident_char c \<Longrightarrow> c \<noteq> of_char CHR ''<'' \<and> c \<noteq> of_char CHR '':'' \<and> c \<noteq> of_char CHR ''(''
     \<and> c \<noteq> of_char CHR '')'' \<and> c \<noteq> of_char CHR ''=''"
  by (auto simp: class_defs)

lemma space_not_special:
  "is_space c \<Longrightarrow> c \<noteq> of_char CHR ''<'' \<and> c \<noteq> of_char CHR '':'' \<and> c \<noteq> of_char CHR ''(''"
  by (auto simp: class_defs)

lemma ustr_append: "ustr (a @ b) = ustr a @ ustr b"
  by (simp add: ustr_def)

lemma ustr_Cons: "ustr (x # a) = of_char x # ustr a"
  by (simp add: ustr_def)

subsection \<open>The first match of an identifier\<close>

lemma first_ident:
  assumes "p0 c" and "\<forall>x \<in> set cs. p x" and "tail = [] \<or> \<not> p (hd tail)"
  shows "first_match (Grp n (Seq (Cls p0) (Star (Cls p)))) ((c # cs) @ tail, g)
           = Some (tail, (n, c # cs) # g)"
proof (rule first_Grp)
  have "first_match (Cls p0) (c # (cs @ tail), g) = Some (cs @ tail, g)"
    using assms(1) by (rule first_Cls)
  moreover have "first_match (Star (Cls p)) (cs @ tail, g) = Some (tail, g)"
    using assms(2,3) by (rule first_Star_Cls)
  ultimately show "first_match (Seq (Cls p0) (Star (Cls p))) ((c # cs) @ tail, g) = Some (tail, g)"
    by (simp add: first_Seq)
qed

subsection \<open>The loop pattern of the Python scanner\<close>

lemma FOR_LOOP_first:
  assumes start: "py_ident_start c" and cont: "\<forall>x \<in> set cs. py_ident_char x"
    and w1: "\<forall>x \<in> set w1. is_space x" and w2: "\<forall>x \<in> set w2. is_space x" and ne: "w2 \<noteq> []"
  shows "first_match FOR_LOOP
           (ustr ''for'' @ w1 @ (c # cs) @ w2 @ ustr ''in'' @ rest, g)
         = Some (rest, (''varname'', c # cs) # g)"
proof -
  let ?g = "(''varname'', c # cs) # g"
  have a: "first_match (Lit (ustr ''for'')) (ustr ''for'' @ w1 @ (c # cs) @ w2 @ ustr ''in'' @ rest, g)
      = Some (w1 @ (c # cs) @ w2 @ ustr ''in'' @ rest, g)"
    by (rule first_Lit)
  have b: "first_match WHITESPACE (w1 @ (c # cs) @ w2 @ ustr ''in'' @ rest, g)
      = Some ((c # cs) @ w2 @ ustr ''in'' @ rest, g)"
    unfolding WHITESPACE_def using w1 by (rule first_Star_Cls) (simp add: py_start_not_space start)
  have "\<not> py_ident_char (hd (w2 @ ustr ''in'' @ rest))"
    using w2 ne by (cases w2) (simp_all add: space_not_py_ident)
  then have c: "first_match IDENTIFIER_NAMED ((c # cs) @ w2 @ ustr ''in'' @ rest, g)
      = Some (w2 @ ustr ''in'' @ rest, ?g)"
    unfolding IDENTIFIER_NAMED_def IDENTIFIER_RAW_def using start cont
    by (intro first_ident) simp_all
  have "\<not> is_space (hd (ustr ''in'' @ rest))"
    by (simp add: ustr_def is_space_def)
  then have d: "first_match WHITESPACE (w2 @ ustr ''in'' @ rest, ?g) = Some (ustr ''in'' @ rest, ?g)"
    unfolding WHITESPACE_def using w2 by (intro first_Star_Cls) simp_all
  have e: "first_match (Lit (ustr ''in'')) (ustr ''in'' @ rest, ?g) = Some (rest, ?g)"
    by (rule first_Lit)
  have "FOR_LOOP = Seq (Lit (ustr ''for'')) (Seq WHITESPACE (Seq IDENTIFIER_NAMED
      (Seq WHITESPACE (Lit (ustr ''in'')))))"
    by (simp add: FOR_LOOP_def)
  then show ?thesis
    using first_Seq [OF a first_Seq [OF b first_Seq [OF c first_Seq [OF d e]]]] by simp
qed

lemma FOR_LOOP_finditer:
  assumes "py_ident_start c" and "\<forall>x \<in> set cs. py_ident_char x"
    and "\<forall>x \<in> set w1. is_space x" and "\<forall>x \<in> set w2. is_space x" and "w2 \<noteq> []"
  shows "finditer FOR_LOOP (ustr ''for'' @ w1 @ (c # cs) @ w2 @ ustr ''in'' @ rest)
         = [(''varname'', c # cs)] # finditer FOR_LOOP rest"
  by (rule finditer_step [OF FOR_LOOP_first [OF assms]]) simp

subsection \<open>Buffers in which no pattern of the R scanner matches\<close>

lemma R_ASSIGN_needs: "of_char CHR ''<'' \<notin> set s \<Longrightarrow> matches R_ASSIGN (s, g) = []"
  unfolding R_ASSIGN_def seqs.simps
  by (intro Seq_needs_right [where c = "of_char CHR ''<''"] Lit_needs) (simp_all add: ustr_def)

lemma R_WALRUS_needs: "of_char CHR '':'' \<notin> set s \<Longrightarrow> matches R_WALRUS_ASSIGN (s, g) = []"
  unfolding R_WALRUS_ASSIGN_def seqs.simps
  by (intro Seq_needs_right [where c = "of_char CHR '':''"] Lit_needs) (simp_all add: ustr_def)

lemma R_EQUALS_needs: "of_char CHR ''='' \<notin> set s \<Longrightarrow> matches R_EQUALS_ASSIGN (s, g) = []"
  unfolding R_EQUALS_ASSIGN_def seqs.simps
  by (intro Seq_needs_right [where c = "of_char CHR ''=''"] Lit_needs) (simp_all add: ustr_def)

lemma MUTATE_needs: "of_char CHR ''('' \<notin> set s \<Longrightarrow> matches MUTATE_PATTERN (s, g) = []"
  unfolding MUTATE_PATTERN_def seqs.simps
  by (intro Seq_needs_right [where c = "of_char CHR ''(''"] Seq_needs_left Lit_needs)
     (simp_all add: ustr_def)

lemma r_scan_needs:
  assumes "of_char CHR ''<'' \<notin> set content" and "of_char CHR '':'' \<notin> set content"
    and "of_char CHR ''('' \<notin> set content"
  shows "r_scan get_r_patterns content = []"
proof -
  have "finditer R_ASSIGN content = []"
    using R_ASSIGN_needs assms(1) by (rule finditer_needs)
  moreover have "finditer R_WALRUS_ASSIGN content = []"
    using R_WALRUS_needs assms(2) by (rule finditer_needs)
  moreover have "finditer MUTATE_PATTERN content = []"
    using MUTATE_needs assms(3) by (rule finditer_needs)
  ultimately show ?thesis
    by (simp add: r_scan_def r_assign_loop_def r_walrus_loop_def r_mutate_loop_def
        get_r_patterns_def)
qed

subsection \<open>The simple-assignment pattern of the Python scanner\<close>

lemma NotAhead_Lit:
  "s = [] \<or> hd s \<noteq> c \<Longrightarrow> first_match (NotAhead (Lit [c])) (s, g) = Some (s, g)"
  by (cases s) (auto simp: first_match_def)

lemma EQUALS_ASSIGN_first:
  assumes start: "py_ident_start c" and cont: "\<forall>x \<in> set cs. py_ident_char x"
    and ws: "\<forall>x \<in> set ws. is_space x" and rest: "rest = [] \<or> hd rest \<noteq> of_char CHR ''=''"
  shows "first_match EQUALS_ASSIGN ((c # cs) @ ws @ ustr ''='' @ rest, g)
         = Some (rest, (''varname'', c # cs) # g)"
proof -
  let ?g = "(''varname'', c # cs) # g"
  have eq: "ustr ''='' = [of_char CHR ''='']" by (simp add: ustr_def)
  have "\<not> py_ident_char (hd (ws @ ustr ''='' @ rest))"
    using ws by (cases ws) (simp_all add: space_not_py_ident, simp add: class_defs)
  then have a: "first_match IDENTIFIER_NAMED ((c # cs) @ ws @ ustr ''='' @ rest, g)
      = Some (ws @ ustr ''='' @ rest, ?g)"
    unfolding IDENTIFIER_NAMED_def IDENTIFIER_RAW_def using start cont
    by (intro first_ident) simp_all
  have "\<not> is_space (hd (ustr ''='' @ rest))"
    by (simp add: ustr_def is_space_def)
  then have b: "first_match WHITESPACE (ws @ ustr ''='' @ rest, ?g) = Some (ustr ''='' @ rest, ?g)"
    unfolding WHITESPACE_def using ws by (intro first_Star_Cls) simp_all
  have c: "first_match (Lit (ustr ''='')) (ustr ''='' @ rest, ?g) = Some (rest, ?g)"
    by (rule first_Lit)
  have d: "first_match (NotAhead (Lit (ustr ''=''))) (rest, ?g) = Some (rest, ?g)"
    unfolding eq using rest by (rule NotAhead_Lit)
  have "EQUALS_ASSIGN = Seq IDENTIFIER_NAMED (Seq WHITESPACE (Seq (Lit (ustr ''=''))
      (NotAhead (Lit (ustr ''='')))))"
    by (simp add: EQUALS_ASSIGN_def)
  then show ?thesis
    using first_Seq [OF a first_Seq [OF b first_Seq [OF c d]]] by simp
qed

lemma py_equals_loop_Cons:
  assumes "finditer EQUALS_ASSIGN content = [(''varname'', var)] # finditer EQUALS_ASSIGN rest"
    and "var \<notin> set py_keywords"
  shows "py_equals_loop get_python_patterns content local_counts
         = py_equals_loop get_python_patterns rest (add_count local_counts var 1)"
  using assms by (simp add: py_equals_loop_def get_python_patterns_def group_def)

lemma py_for_loop_Cons:
  assumes "finditer FOR_LOOP content = [(''varname'', var)] # finditer FOR_LOOP rest"
  shows "py_for_loop get_python_patterns content local_counts
         = py_for_loop get_python_patterns rest (add_count local_counts var 1)"
  using assms by (simp add: py_for_loop_def get_python_patterns_def group_def)

lemma py_for_loop_get:
  "dict_get (py_for_loop patterns content local_counts) var 0
     = dict_get local_counts var 0 + count_list (varnames (finditer (for_loop patterns) content)) var"
  by (simp only: py_for_loop_def foldl_varnames dict_get_tally)

lemma py_for_loop_example:
  "py_for_loop get_python_patterns (ustr ''for i in range(3):'') [] = [(ustr ''i'', 1)]"
  by (simp add: eval_simps)

lemma EQUALS_ASSIGN_finditer:
  assumes "py_ident_start c" and "\<forall>x \<in> set cs. py_ident_char x"
    and "\<forall>x \<in> set ws. is_space x" and "rest = [] \<or> hd rest \<noteq> of_char CHR ''=''"
  shows "finditer EQUALS_ASSIGN ((c # cs) @ ws @ ustr ''='' @ rest)
         = [(''varname'', c # cs)] # finditer EQUALS_ASSIGN rest"
  by (rule finditer_step [OF EQUALS_ASSIGN_first [OF assms]]) (simp add: ustr_def)

subsection \<open>The \<open>mutate\<close> pattern and the equals pattern of the R scanner\<close>

lemma Lazy_any_Nil: "matches (Lazy (Cls any_char)) ([], g) = [([], g)]"
  by (subst matches_Lazy) simp

lemma Lazy_any_Cons:
  "matches (Lazy (Cls any_char)) (x # s, g) = (x # s, g) # matches (Lazy (Cls any_char)) (s, g)"
  by (subst matches_Lazy) (simp add: any_char_def)

lemma content_until:
  assumes "c \<notin> set xs"
  shows "\<exists>t. concat (map (matches (Lit [c]))
             (map (\<lambda>(s', g'). (s', F s' g')) (matches (Lazy (Cls any_char)) (xs @ c # ys, g))))
           = (ys, F (c # ys) g) # t"
  using assms
proof (induction xs)
  case Nil
  show ?case by (simp add: Lazy_any_Cons)
next
  case (Cons x xs)
  then have "x \<noteq> c" and "c \<notin> set xs" by auto
  with Cons.IH show ?case by (simp add: Lazy_any_Cons)
qed

lemma first_content:
  assumes "c \<notin> set xs"
  shows "first_match (Seq (Grp n (Lazy (Cls any_char))) (Lit [c])) (xs @ c # ys, g)
         = Some (ys, (n, xs) # g)"
proof -
  let ?F = "\<lambda>s' g'. (n, take (length (xs @ c # ys) - length s') (xs @ c # ys)) # g'"
  obtain t where "concat (map (matches (Lit [c]))
             (map (\<lambda>(s', g'). (s', ?F s' g')) (matches (Lazy (Cls any_char)) (xs @ c # ys, g))))
           = (ys, ?F (c # ys) g) # t"
    using content_until [OF assms, of ?F ys g] by blast
  then show ?thesis by (simp add: first_match_def)
qed

lemma MUTATE_first:
  assumes "of_char CHR '')'' \<notin> set xs"
  shows "first_match MUTATE_PATTERN (ustr ''mutate'' @ ustr ''('' @ xs @ ustr '')'' @ ys, g)
         = Some (ys, (''content'', xs) # g)"
proof -
  have close: "ustr '')'' = [of_char CHR '')'']" by (simp add: ustr_def)
  have a: "first_match (Lit (ustr ''mutate'')) (ustr ''mutate'' @ ustr ''('' @ xs @ ustr '')'' @ ys, g)
      = Some (ustr ''('' @ xs @ ustr '')'' @ ys, g)"
    by (rule first_Lit)
  have "\<not> is_space (hd (ustr ''('' @ xs @ ustr '')'' @ ys))"
    by (simp add: ustr_def is_space_def)
  then have b: "first_match (Star (Cls is_space)) (ustr ''('' @ xs @ ustr '')'' @ ys, g)
      = Some (ustr ''('' @ xs @ ustr '')'' @ ys, g)"
    using first_Star_Cls [of "[]" is_space "ustr ''('' @ xs @ ustr '')'' @ ys" g] by simp
  have c: "first_match (Lit (ustr ''('')) (ustr ''('' @ xs @ ustr '')'' @ ys, g)
      = Some (xs @ ustr '')'' @ ys, g)"
    by (rule first_Lit)
  have d: "first_match (Seq (Grp ''content'' (Lazy (Cls any_char))) (Lit (ustr '')'')))
        (xs @ ustr '')'' @ ys, g) = Some (ys, (''content'', xs) # g)"
    unfolding close using first_content [OF assms, of "''content''" ys g] by simp
  have "MUTATE_PATTERN = Seq (Lit (ustr ''mutate'')) (Seq (Star (Cls is_space))
      (Seq (Lit (ustr ''('')) (Seq (Grp ''content'' (Lazy (Cls any_char))) (Lit (ustr '')'')))))"
    by (simp add: MUTATE_PATTERN_def)
  then show ?thesis
    using first_Seq [OF a first_Seq [OF b first_Seq [OF c d]]] by simp
qed

lemma R_EQUALS_first:
  assumes start: "is_letter c" and cont: "\<forall>x \<in> set cs. r_ident_char x"
    and ws: "\<forall>x \<in> set ws. is_space x"
  shows "first_match R_EQUALS_ASSIGN ((c # cs) @ ws @ ustr ''='' @ rest, g)
         = Some (rest, (''varname'', c # cs) # g)"
proof -
  let ?g = "(''varname'', c # cs) # g"
  have "\<not> r_ident_char (hd (ws @ ustr ''='' @ rest))"
    using ws by (cases ws) (simp_all add: space_not_r_ident, simp add: class_defs)
  then have a: "first_match R_IDENTIFIER ((c # cs) @ ws @ ustr ''='' @ rest, g)
      = Some (ws @ ustr ''='' @ rest, ?g)"
    unfolding R_IDENTIFIER_def using start cont by (intro first_ident) simp_all
  have "\<not> is_space (hd (ustr ''='' @ rest))"
    by (simp add: ustr_def is_space_def)
  then have b: "first_match WHITESPACE (ws @ ustr ''='' @ rest, ?g) = Some (ustr ''='' @ rest, ?g)"
    unfolding WHITESPACE_def using ws by (intro first_Star_Cls) simp_all
  have c: "first_match (Lit (ustr ''='')) (ustr ''='' @ rest, ?g) = Some (rest, ?g)"
    by (rule first_Lit)
  have "R_EQUALS_ASSIGN = Seq R_IDENTIFIER (Seq WHITESPACE (Lit (ustr ''='')))"
    by (simp add: R_EQUALS_ASSIGN_def)
  then show ?thesis using first_Seq [OF a first_Seq [OF b c]] by simp
qed

lemma R_EQUALS_not_letter: "\<not> is_letter x \<Longrightarrow> matches R_EQUALS_ASSIGN (x # s, g) = []"
  by (simp add: R_EQUALS_ASSIGN_def R_IDENTIFIER_def)

lemma R_EQUALS_comparison:
  assumes "is_letter c" and "\<forall>x \<in> set cs. r_ident_char x" and "of_char CHR ''='' \<notin> set e"
  shows "finditer R_EQUALS_ASSIGN ((c # cs) @ ustr '' == '' @ e) = [[(''varname'', c # cs)]]"
proof -
  have split: "(c # cs) @ ustr '' == '' @ e
      = (c # cs) @ ustr '' '' @ ustr ''='' @ (of_char CHR ''='' # ustr '' '' @ e)"
    by (simp add: ustr_def)
  have sp: "\<forall>x \<in> set (ustr '' ''). is_space x" by (simp add: class_defs)
  have "finditer R_EQUALS_ASSIGN ((c # cs) @ ustr '' == '' @ e)
      = [(''varname'', c # cs)] # finditer R_EQUALS_ASSIGN (of_char CHR ''='' # ustr '' '' @ e)"
    unfolding split
    by (rule finditer_step [OF R_EQUALS_first [OF assms(1,2) sp]]) (simp add: ustr_def)
  also have "finditer R_EQUALS_ASSIGN (of_char CHR ''='' # ustr '' '' @ e)
      = finditer R_EQUALS_ASSIGN (ustr '' '' @ e)"
    by (rule finditer_skip, rule R_EQUALS_not_letter) (simp add: class_defs)
  also have "finditer R_EQUALS_ASSIGN (ustr '' '' @ e) = []"
  proof -
    have "of_char CHR ''='' \<notin> set (ustr '' '' @ e)"
      using assms(3) by (simp add: ustr_def)
    with R_EQUALS_needs show ?thesis by (rule finditer_needs)
  qed
  finally show ?thesis .
qed

section \<open>Every pattern reads a character and sets its groups\<close>

text \<open>
  A match of a pattern of this program ends strictly after its start, so \<open>finditer\<close> never
  meets a match that reads nothing; and every match sets the group that the scanner reads
  from it, so \<open>group\<close> never meets a group that is not set.
\<close>

lemma matches_length:
  "st' \<in> set (matches r st) \<Longrightarrow> length (fst st') \<le> length (fst st)"
proof (induction r st arbitrary: st' rule: matches.induct)
  case (1 l s g)
  then show ?case by (auto split: if_splits)
next
  case (2 p s g)
  then show ?case by (auto split: list.splits if_splits)
next
  case (3 a b st)
  from "3.prems" obtain m where m: "m \<in> set (matches a st)" "st' \<in> set (matches b m)"
    by auto
  from "3.IH"(1) [OF m(1)] "3.IH"(2) [OF m] show ?case by simp
next
  case (4 a b st)
  from "4.prems" have "st' \<in> set (matches a st) \<or> st' \<in> set (matches b st)" by simp
  with "4.IH" show ?case by blast
next
  case (5 a st)
  from "5.prems"
  have "st' \<in> set (concat (map (matches (Star a))
          (filter (\<lambda>m. length (fst m) < length (fst st)) (matches a st))) @ [st])"
    by (simp only: matches_Star)
  then consider "st' = st"
    | m where "m \<in> set (matches a st)" "length (fst m) < length (fst st)"
        "st' \<in> set (matches (Star a) m)"
    by auto
  then show ?case
  proof cases
    case 1
    then show ?thesis by simp
  next
    case 2
    from "5.IH"(2) [of m st'] 2 show ?thesis by auto
  qed
next
  case (6 a st)
  from "6.prems"
  have "st' \<in> set (st # concat (map (matches (Lazy a))
          (filter (\<lambda>m. length (fst m) < length (fst st)) (matches a st))))"
    by (simp only: matches_Lazy)
  then consider "st' = st"
    | m where "m \<in> set (matches a st)" "length (fst m) < length (fst st)"
        "st' \<in> set (matches (Lazy a) m)"
    by auto
  then show ?case
  proof cases
    case 1
    then show ?thesis by simp
  next
    case 2
    from "6.IH"(2) [of m st'] 2 show ?thesis by auto
  qed
next
  case (7 n a s g)
  from "7.prems" obtain m where m: "m \<in> set (matches a (s, g))" "fst st' = fst m"
    by auto
  from "7.IH" [OF m(1)] m(2) show ?case by simp
next
  case (8 a st)
  then show ?case by (auto split: if_splits)
qed

lemma Cls_reads:
  "st' \<in> set (matches (Cls p) st) \<Longrightarrow> length (fst st') < length (fst st)"
  by (cases st) (auto split: list.splits if_splits)

lemma Lit_reads:
  assumes "st' \<in> set (matches (Lit l) st)" and "l \<noteq> []"
  shows "length (fst st') < length (fst st)"
proof (cases st)
  case (Pair s g)
  with assms(1) have l: "take (length l) s = l" and st': "fst st' = drop (length l) s"
    by (auto split: if_splits)
  from l assms(2) have "s \<noteq> []" by auto
  with st' assms(2) Pair show ?thesis by simp
qed

lemma Seq_reads:
  assumes "st' \<in> set (matches (Seq a b) st)"
    and "\<And>st m. m \<in> set (matches a st) \<Longrightarrow> length (fst m) < length (fst st)"
  shows "length (fst st') < length (fst st)"
proof -
  from assms(1) obtain m where m: "m \<in> set (matches a st)" "st' \<in> set (matches b m)" by auto
  from assms(2) [OF m(1)] matches_length [OF m(2)] show ?thesis by simp
qed

lemma Grp_reads:
  assumes "st' \<in> set (matches (Grp n a) st)"
    and "\<And>st m. m \<in> set (matches a st) \<Longrightarrow> length (fst m) < length (fst st)"
  shows "length (fst st') < length (fst st)"
proof (cases st)
  case (Pair s g)
  with assms(1) obtain m where m: "m \<in> set (matches a st)" "fst st' = fst m" by auto
  from assms(2) [OF m(1)] m(2) show ?thesis by simp
qed

lemma py_patterns_read:
  assumes "r \<in> {EQUALS_ASSIGN, WALRUS_ASSIGN, MULTI_ASSIGN, AUGMENTED_ASSIGN, FOR_LOOP,
      VAR_EXTRACTOR}"
    and "st' \<in> set (matches r st)"
  shows "length (fst st') < length (fst st)"
  using assms
  unfolding EQUALS_ASSIGN_def WALRUS_ASSIGN_def MULTI_ASSIGN_def AUGMENTED_ASSIGN_def
    FOR_LOOP_def VAR_EXTRACTOR_def IDENTIFIER_NAMED_def IDENTIFIER_RAW_def seqs.simps
  by (elim insertE emptyE; hypsubst; elim Seq_reads Grp_reads Cls_reads Lit_reads)
     (simp_all add: ustr_def)

lemma r_patterns_read:
  assumes "r \<in> {R_ASSIGN, R_WALRUS_ASSIGN, R_EQUALS_ASSIGN, MUTATE_PATTERN}"
    and "st' \<in> set (matches r st)"
  shows "length (fst st') < length (fst st)"
  using assms
  unfolding R_ASSIGN_def R_WALRUS_ASSIGN_def R_EQUALS_ASSIGN_def MUTATE_PATTERN_def
    R_IDENTIFIER_def seqs.simps
  by (elim insertE emptyE; hypsubst; elim Seq_reads Grp_reads Cls_reads Lit_reads)
     (simp_all add: ustr_def)

lemma matches_keeps_group:
  "st' \<in> set (matches r st) \<Longrightarrow> map_of (snd st) n \<noteq> None \<Longrightarrow> map_of (snd st') n \<noteq> None"
proof (induction r st arbitrary: st' rule: matches.induct)
  case (1 l s g)
  then show ?case by (auto split: if_splits)
next
  case (2 p s g)
  then show ?case by (auto split: list.splits if_splits)
next
  case (3 a b st)
  from "3.prems"(1) obtain m where m: "m \<in> set (matches a st)" "st' \<in> set (matches b m)"
    by auto
  from "3.IH"(1) [OF m(1) "3.prems"(2)] "3.IH"(2) [OF m] show ?case by simp
next
  case (4 a b st)
  from "4.prems"(1) have "st' \<in> set (matches a st) \<or> st' \<in> set (matches b st)" by simp
  with "4.IH" "4.prems"(2) show ?case by blast
next
  case (5 a st)
  from "5.prems"(1)
  have "st' \<in> set (concat (map (matches (Star a))
          (filter (\<lambda>m. length (fst m) < length (fst st)) (matches a st))) @ [st])"
    by (simp only: matches_Star)
  then consider "st' = st"
    | m where "m \<in> set (matches a st)" "length (fst m) < length (fst st)"
        "st' \<in> set (matches (Star a) m)"
    by auto
  then show ?case
  proof cases
    case 1
    with "5.prems"(2) show ?thesis by simp
  next
    case 2
    from "5.IH"(1) [OF 2(1) "5.prems"(2)] "5.IH"(2) [of m st'] 2 show ?thesis by auto
  qed
next
  case (6 a st)
  from "6.prems"(1)
  have "st' \<in> set (st # concat (map (matches (Lazy a))
          (filter (\<lambda>m. length (fst m) < length (fst st)) (matches a st))))"
    by (simp only: matches_Lazy)
  then consider "st' = st"
    | m where "m \<in> set (matches a st)" "length (fst m) < length (fst st)"
        "st' \<in> set (matches (Lazy a) m)"
    by auto
  then show ?case
  proof cases
    case 1
    with "6.prems"(2) show ?thesis by simp
  next
    case 2
    from "6.IH"(1) [OF 2(1) "6.prems"(2)] "6.IH"(2) [of m st'] 2 show ?thesis by auto
  qed
next
  case (7 k a s g)
  from "7.prems"(1) obtain s' g' where m: "(s', g') \<in> set (matches a (s, g))"
    "st' = (s', (k, take (length s - length s') s) # g')"
    by auto
  from "7.IH" [OF m(1)] "7.prems"(2) m(2) show ?case by simp
next
  case (8 a st)
  then show ?case by (auto split: if_splits)
qed

lemma Grp_sets:
  "st' \<in> set (matches (Grp n a) st) \<Longrightarrow> map_of (snd st') n \<noteq> None"
  by (cases st) auto

lemma Seq_sets_left:
  assumes "st' \<in> set (matches (Seq a b) st)"
    and "\<And>st m. m \<in> set (matches a st) \<Longrightarrow> map_of (snd m) n \<noteq> None"
  shows "map_of (snd st') n \<noteq> None"
proof -
  from assms(1) obtain m where m: "m \<in> set (matches a st)" "st' \<in> set (matches b m)" by auto
  from matches_keeps_group [OF m(2) assms(2) [OF m(1)]] show ?thesis .
qed

lemma Seq_sets_right:
  assumes "st' \<in> set (matches (Seq a b) st)"
    and "\<And>st m. m \<in> set (matches b st) \<Longrightarrow> map_of (snd m) n \<noteq> None"
  shows "map_of (snd st') n \<noteq> None"
proof -
  from assms(1) obtain m where m: "m \<in> set (matches a st)" "st' \<in> set (matches b m)" by auto
  from assms(2) [OF m(2)] show ?thesis .
qed

lemma Seq_Grp_sets:
  "st' \<in> set (matches (Seq (Grp n a) b) st) \<Longrightarrow> map_of (snd st') n \<noteq> None"
  by (erule Seq_sets_left, erule Grp_sets)

lemma varname_set:
  assumes "r \<in> {EQUALS_ASSIGN, WALRUS_ASSIGN, AUGMENTED_ASSIGN, VAR_EXTRACTOR, R_ASSIGN,
      R_WALRUS_ASSIGN, R_EQUALS_ASSIGN}"
    and "st' \<in> set (matches r st)"
  shows "map_of (snd st') ''varname'' \<noteq> None"
proof -
  from assms(1) consider a b where "r = Seq (Grp ''varname'' a) b"
    | a where "r = Grp ''varname'' a"
    unfolding EQUALS_ASSIGN_def WALRUS_ASSIGN_def AUGMENTED_ASSIGN_def VAR_EXTRACTOR_def
      R_ASSIGN_def R_WALRUS_ASSIGN_def R_EQUALS_ASSIGN_def IDENTIFIER_NAMED_def
      R_IDENTIFIER_def seqs.simps
    by blast
  then show ?thesis
  proof cases
    case 1
    from assms(2) show ?thesis unfolding 1 by (rule Seq_Grp_sets)
  next
    case 2
    from assms(2) show ?thesis unfolding 2 by (rule Grp_sets)
  qed
qed

lemma for_loop_varname_set:
  "st' \<in> set (matches FOR_LOOP st) \<Longrightarrow> map_of (snd st') ''varname'' \<noteq> None"
  unfolding FOR_LOOP_def IDENTIFIER_NAMED_def seqs.simps
  by (erule Seq_sets_right, erule Seq_sets_right, erule Seq_sets_left, erule Grp_sets)

lemma multi_assign_group_set:
  "st' \<in> set (matches MULTI_ASSIGN st) \<Longrightarrow> map_of (snd st') ''1'' \<noteq> None"
  unfolding MULTI_ASSIGN_def seqs.simps
  by (erule Seq_sets_left, erule Grp_sets)

lemma mutate_content_set:
  "st' \<in> set (matches MUTATE_PATTERN st) \<Longrightarrow> map_of (snd st') ''content'' \<noteq> None"
  unfolding MUTATE_PATTERN_def seqs.simps
  by (erule Seq_sets_right, erule Seq_sets_right, erule Seq_sets_right, erule Seq_sets_left,
      erule Grp_sets)

section \<open>Lemmas on the search of \<open>finditer\<close>\<close>

subsection \<open>Where the search stands\<close>

lemma scan_to_refl: "scan_to r s s = Some []"
  by (subst scan_to.simps) simp

lemma scan_to_finditer:
  "scan_to r s t = Some ms \<Longrightarrow> finditer r s = ms @ finditer r t"
proof (induction r s t arbitrary: ms rule: scan_to.induct)
  case (1 r s t)
  show ?case
  proof (cases "s = t")
    case True
    with "1.prems" show ?thesis by (simp add: scan_to_refl)
  next
    case neq: False
    show ?thesis
    proof (cases "matches r (s, [])")
      case Nil
      show ?thesis
      proof (cases s)
        case Nil
        with neq \<open>matches r (s, []) = []\<close> "1.prems" show ?thesis
          by (subst (asm) scan_to.simps) simp
      next
        case (Cons x u)
        with neq \<open>matches r (s, []) = []\<close> "1.prems" have "scan_to r u t = Some ms"
          by (subst (asm) scan_to.simps) simp
        from "1.IH"(1) [OF neq \<open>matches r (s, []) = []\<close> Cons this]
        have "finditer r u = ms @ finditer r t" .
        with Cons \<open>matches r (s, []) = []\<close> show ?thesis
          by (subst finditer.simps) simp
      qed
    next
      case (Cons m rest)
      obtain s' g where m: "m = (s', g)" by (cases m)
      show ?thesis
      proof (cases "length s' < length s")
        case True
        with neq Cons m "1.prems" obtain ms' where ms': "scan_to r s' t = Some ms'" "ms = g # ms'"
          by (subst (asm) scan_to.simps) auto
        from "1.IH"(2) [OF neq Cons m [symmetric] True ms'(1)]
        have "finditer r s' = ms' @ finditer r t" .
        with True Cons m ms'(2) show ?thesis
          by (subst finditer.simps) simp
      next
        case False
        show ?thesis
        proof (cases s)
          case Nil
          with neq Cons m False "1.prems" show ?thesis
            by (subst (asm) scan_to.simps) simp
        next
          case (Cons x u)
          with neq \<open>matches r (s, []) = m # rest\<close> m False "1.prems"
          obtain ms' where ms': "scan_to r u t = Some ms'" "ms = g # ms'"
            by (subst (asm) scan_to.simps) auto
          from "1.IH"(3) [OF neq \<open>matches r (s, []) = m # rest\<close> m [symmetric] False Cons ms'(1)]
          have "finditer r u = ms' @ finditer r t" .
          with False Cons \<open>matches r (s, []) = m # rest\<close> m ms'(2) show ?thesis
            by (subst finditer.simps) simp
        qed
      qed
    qed
  qed
qed

lemma scan_to_skip:
  assumes "\<And>a b. pre = a @ b \<Longrightarrow> b \<noteq> [] \<Longrightarrow> matches r (b @ s, []) = []"
  shows "scan_to r (pre @ s) s = Some []"
  using assms
proof (induction pre)
  case Nil
  show ?case by (simp add: scan_to_refl)
next
  case (Cons x pre)
  have "matches r ((x # pre) @ s, []) = []"
    using Cons.prems [of "[]" "x # pre"] by simp
  moreover have "scan_to r (pre @ s) s = Some []"
  proof (rule Cons.IH)
    fix a b assume "pre = a @ b" "b \<noteq> []"
    then show "matches r (b @ s, []) = []"
      using Cons.prems [of "x # a" b] by simp
  qed
  ultimately show ?case by (subst scan_to.simps) simp
qed

subsection \<open>A match ends in a suffix of the text\<close>

lemma matches_suffix:
  "st' \<in> set (matches r st) \<Longrightarrow> \<exists>xs. fst st = xs @ fst st'"
proof (induction r st arbitrary: st' rule: matches.induct)
  case (1 l s g)
  then have "st' = (drop (length l) s, g)" by (auto split: if_splits)
  then have "fst (s, g) = take (length l) s @ fst st'" by simp
  then show ?case by blast
next
  case (2 p s g)
  then show ?case by (auto split: list.splits if_splits)
next
  case (3 a b st)
  from "3.prems" obtain m where m: "m \<in> set (matches a st)" "st' \<in> set (matches b m)"
    by auto
  from "3.IH"(1) [OF m(1)] obtain xs where "fst st = xs @ fst m" by blast
  moreover from "3.IH"(2) [OF m] obtain ys where "fst m = ys @ fst st'" by blast
  ultimately have "fst st = (xs @ ys) @ fst st'" by simp
  then show ?case by blast
next
  case (4 a b st)
  from "4.prems" have "st' \<in> set (matches a st) \<or> st' \<in> set (matches b st)" by simp
  with "4.IH" show ?case by blast
next
  case (5 a st)
  from "5.prems"
  have "st' \<in> set (concat (map (matches (Star a))
          (filter (\<lambda>m. length (fst m) < length (fst st)) (matches a st))) @ [st])"
    by (simp only: matches_Star)
  then consider "st' = st"
    | m where "m \<in> set (matches a st)" "length (fst m) < length (fst st)"
        "st' \<in> set (matches (Star a) m)"
    by auto
  then show ?case
  proof cases
    case 1
    then show ?thesis by simp
  next
    case 2
    from "5.IH"(1) [OF 2(1)] obtain xs where "fst st = xs @ fst m" by blast
    moreover from "5.IH"(2) [of m st'] 2 obtain ys where "fst m = ys @ fst st'" by auto
    ultimately have "fst st = (xs @ ys) @ fst st'" by simp
    then show ?thesis by blast
  qed
next
  case (6 a st)
  from "6.prems"
  have "st' \<in> set (st # concat (map (matches (Lazy a))
          (filter (\<lambda>m. length (fst m) < length (fst st)) (matches a st))))"
    by (simp only: matches_Lazy)
  then consider "st' = st"
    | m where "m \<in> set (matches a st)" "length (fst m) < length (fst st)"
        "st' \<in> set (matches (Lazy a) m)"
    by auto
  then show ?case
  proof cases
    case 1
    then show ?thesis by simp
  next
    case 2
    from "6.IH"(1) [OF 2(1)] obtain xs where "fst st = xs @ fst m" by blast
    moreover from "6.IH"(2) [of m st'] 2 obtain ys where "fst m = ys @ fst st'" by auto
    ultimately have "fst st = (xs @ ys) @ fst st'" by simp
    then show ?thesis by blast
  qed
next
  case (7 n a s g)
  from "7.prems" obtain m where m: "m \<in> set (matches a (s, g))" "fst st' = fst m"
    by auto
  from "7.IH" [OF m(1)] m(2) show ?case by simp
next
  case (8 a st)
  then show ?case by (auto split: if_splits)
qed

subsection \<open>Every match that \<open>finditer\<close> reports is a first match somewhere in the text\<close>

lemma finditer_elems:
  "m \<in> set (finditer r s) \<Longrightarrow> \<exists>pre t s'. s = pre @ t \<and> first_match r (t, []) = Some (s', m)"
proof (induction r s rule: finditer.induct)
  case (1 r s)
  show ?case
  proof (cases "matches r (s, [])")
    case Nil
    show ?thesis
    proof (cases s)
      case Nil
      with \<open>matches r (s, []) = []\<close> "1.prems" show ?thesis
        by (subst (asm) finditer.simps) simp
    next
      case (Cons x u)
      with \<open>matches r (s, []) = []\<close> "1.prems" have "m \<in> set (finditer r u)"
        by (subst (asm) finditer.simps) simp
      from "1.IH"(1) [OF \<open>matches r (s, []) = []\<close> Cons this]
      obtain pre t s' where "u = pre @ t" "first_match r (t, []) = Some (s', m)" by blast
      with Cons have "s = (x # pre) @ t \<and> first_match r (t, []) = Some (s', m)" by simp
      then show ?thesis by blast
    qed
  next
    case (Cons h rest)
    obtain s' g where h: "h = (s', g)" by (cases h)
    have here: "first_match r (s, []) = Some (s', g)"
      using Cons h by (simp add: first_match_def)
    have found: ?thesis if "m = g"
    proof -
      from here that have "s = [] @ s \<and> first_match r (s, []) = Some (s', m)" by simp
      then show ?thesis by blast
    qed
    show ?thesis
    proof (cases "length s' < length s")
      case True
      with Cons h "1.prems" have "m = g \<or> m \<in> set (finditer r s')"
        by (subst (asm) finditer.simps) auto
      then show ?thesis
      proof
        assume "m = g" then show ?thesis by (rule found)
      next
        assume "m \<in> set (finditer r s')"
        from "1.IH"(2) [OF Cons h [symmetric] True this]
        obtain pre t s'' where *: "s' = pre @ t" "first_match r (t, []) = Some (s'', m)" by blast
        have "h \<in> set (matches r (s, []))" using Cons by simp
        from matches_suffix [OF this] h obtain xs where "s = xs @ s'" by auto
        with * have "s = (xs @ pre) @ t \<and> first_match r (t, []) = Some (s'', m)" by simp
        then show ?thesis by blast
      qed
    next
      case False
      show ?thesis
      proof (cases s)
        case Nil
        with Cons h False "1.prems" have "m = g"
          by (subst (asm) finditer.simps) simp
        then show ?thesis by (rule found)
      next
        case sc: (Cons x u)
        with Cons h False "1.prems" have "m = g \<or> m \<in> set (finditer r u)"
          by (subst (asm) finditer.simps) auto
        then show ?thesis
        proof
          assume "m = g" then show ?thesis by (rule found)
        next
          assume "m \<in> set (finditer r u)"
          from "1.IH"(3) [OF Cons h [symmetric] False sc this]
          obtain pre t s'' where "u = pre @ t" "first_match r (t, []) = Some (s'', m)" by blast
          with sc have "s = (x # pre) @ t \<and> first_match r (t, []) = Some (s'', m)" by simp
          then show ?thesis by blast
        qed
      qed
    qed
  qed
qed

subsection \<open>The matches of a starred character class and of an identifier\<close>

lemma Star_Cls_elems:
  "m \<in> set (matches (Star (Cls p)) (s, g))
     \<Longrightarrow> \<exists>xs. s = xs @ fst m \<and> (\<forall>x \<in> set xs. p x) \<and> snd m = g"
proof (induction s)
  case Nil
  then show ?case by (simp add: Star_Cls_stop)
next
  case (Cons x t)
  show ?case
  proof (cases "p x")
    case True
    with Cons.prems have "m \<in> set (matches (Star (Cls p)) (t, g)) \<or> m = (x # t, g)"
      by (auto simp add: Star_Cls_Cons)
    then show ?thesis
    proof
      assume "m \<in> set (matches (Star (Cls p)) (t, g))"
      from Cons.IH [OF this] obtain xs where "t = xs @ fst m" "\<forall>x \<in> set xs. p x" "snd m = g"
        by blast
      with True have "x # t = (x # xs) @ fst m \<and> (\<forall>y \<in> set (x # xs). p y) \<and> snd m = g"
        by simp
      then show ?thesis by blast
    next
      assume "m = (x # t, g)"
      then have "x # t = [] @ fst m \<and> (\<forall>y \<in> set []. p y) \<and> snd m = g" by simp
      then show ?thesis by blast
    qed
  next
    case False
    with Cons.prems have "m = (x # t, g)" by (simp add: Star_Cls_stop)
    then have "x # t = [] @ fst m \<and> (\<forall>y \<in> set []. p y) \<and> snd m = g" by simp
    then show ?thesis by blast
  qed
qed

lemma ident_elems:
  assumes "m \<in> set (matches (Grp n (Seq (Cls p0) (Star (Cls p)))) (s, g))"
  shows "\<exists>x xs. s = (x # xs) @ fst m \<and> p0 x \<and> (\<forall>y \<in> set xs. p y) \<and> snd m = (n, x # xs) # g"
proof (cases s)
  case Nil
  with assms show ?thesis by simp
next
  case (Cons x t)
  show ?thesis
  proof (cases "p0 x")
    case False
    with Cons assms show ?thesis by simp
  next
    case True
    with Cons assms obtain m' where m': "m' \<in> set (matches (Star (Cls p)) (t, g))"
      "m = (fst m', (n, take (length s - length (fst m')) s) # snd m')"
      by (auto simp del: matches.simps(5))
    from Star_Cls_elems [OF m'(1)] obtain xs where
      xs: "t = xs @ fst m'" "\<forall>y \<in> set xs. p y" "snd m' = g" by blast
    from Cons xs(1) have "take (length s - length (fst m')) s = x # xs" by simp
    with m'(2) xs Cons True
    have "s = (x # xs) @ fst m \<and> p0 x \<and> (\<forall>y \<in> set xs. p y) \<and> snd m = (n, x # xs) # g"
      by simp
    then show ?thesis by blast
  qed
qed

lemma before_first:
  assumes "c \<notin> set xs" and "xs @ s' = pre @ c # t"
  shows "\<exists>pre'. pre = xs @ pre' \<and> s' = pre' @ c # t"
proof -
  from assms(2) obtain us where
    "(xs = pre @ us \<and> us @ s' = c # t) \<or> (xs @ us = pre \<and> s' = us @ c # t)"
    by (auto simp: append_eq_append_conv2)
  then show ?thesis
  proof
    assume a: "xs = pre @ us \<and> us @ s' = c # t"
    with assms(1) have "us = []" by (cases us) auto
    with a show ?thesis by simp
  next
    assume "xs @ us = pre \<and> s' = us @ c # t"
    then show ?thesis by blast
  qed
qed

section \<open>Lemmas on the rules at a site of the buffer\<close>

subsection \<open>The loop pattern of the Python scanner anywhere in a buffer\<close>

lemma FOR_LOOP_needs_f: "x \<noteq> of_char CHR ''f'' \<Longrightarrow> matches FOR_LOOP (x # s, g) = []"
  by (simp add: FOR_LOOP_def ustr_def)

lemma FOR_LOOP_scan_to_prefix:
  assumes "\<forall>x \<in> set pre. x \<noteq> of_char CHR ''f''"
  shows "scan_to FOR_LOOP (pre @ s) s = Some []"
proof (rule scan_to_skip)
  fix a b assume "pre = a @ b" "b \<noteq> []"
  with assms obtain x b' where "b = x # b'" "x \<noteq> of_char CHR ''f''"
    by (cases b) auto
  then show "matches FOR_LOOP (b @ s, []) = []"
    by (simp add: FOR_LOOP_needs_f del: matches.simps)
qed

lemma varnames_append: "varnames (xs @ ys) = varnames xs @ varnames ys"
  by (simp add: varnames_def)

lemma varnames_Cons: "varnames ([(''varname'', v)] # ms) = v # varnames ms"
  by (simp add: varnames_def group_def)

lemma py_for_loop_tally:
  "py_for_loop get_python_patterns content local_counts
     = tally local_counts (varnames (finditer FOR_LOOP content))"
  by (simp only: py_for_loop_def foldl_varnames) (simp add: get_python_patterns_def)

lemma tally_Cons: "tally d (v # vs) = tally (add_count d v 1) vs"
  by (simp add: tally_def)

lemma two_loops_scan_to:
  "scan_to FOR_LOOP (ustr ''for j in a:\<newline>for i in b:'') (ustr ''for i in b:'')
     = Some [[(''varname'', ustr ''j'')]]"
  by (simp add: eval_simps)

lemma two_loops_scan:
  "py_scan get_python_patterns (ustr ''for j in a:\<newline>for i in b:'')
     = [(ustr ''j'', 1), (ustr ''i'', 1)]"
  by (simp add: eval_simps)

lemma py_scan_for_for:
  "py_scan get_python_patterns (ustr ''for for index in x'') = [(ustr ''for'', 1)]"
  by (simp add: eval_simps)


subsection \<open>The simple-assignment pattern of the Python scanner at a comparison\<close>

lemma Seq_no_match:
  "(\<And>m. m \<in> set (matches a st) \<Longrightarrow> matches b m = []) \<Longrightarrow> matches (Seq a b) st = []"
  by simp

lemma py_ident_not_eq: "py_ident_char c \<Longrightarrow> c \<noteq> of_char CHR ''=''"
  by (auto simp: class_defs)

lemma space_not_eq: "is_space c \<Longrightarrow> c \<noteq> of_char CHR ''=''"
  by (auto simp: class_defs)

lemma EQUALS_ASSIGN_not_start:
  "\<not> py_ident_start x \<Longrightarrow> matches EQUALS_ASSIGN (x # s, g) = []"
  by (simp add: EQUALS_ASSIGN_def IDENTIFIER_NAMED_def IDENTIFIER_RAW_def)

lemma EQUALS_tail_comparison:
  assumes "of_char CHR ''='' \<notin> set pre"
  shows "matches (Seq WHITESPACE (Seq (Lit (ustr ''='')) (NotAhead (Lit (ustr ''='')))))
           (pre @ ustr ''=='' @ rest, g) = []"
proof (rule Seq_no_match)
  let ?eq = "of_char CHR ''='' :: nat"
  have lit: "ustr ''='' = [?eq]" and buf: "pre @ ustr ''=='' @ rest = pre @ ?eq # ?eq # rest"
    by (simp_all add: ustr_def)
  fix m assume m: "m \<in> set (matches WHITESPACE (pre @ ustr ''=='' @ rest, g))"
  obtain s1 g1 where m1: "m = (s1, g1)" by (cases m)
  from Star_Cls_elems [OF m [unfolded WHITESPACE_def]] m1 obtain xs where
    xs: "pre @ ustr ''=='' @ rest = xs @ s1" "\<forall>x \<in> set xs. is_space x" by auto
  from xs(2) have "?eq \<notin> set xs" using space_not_eq by blast
  from before_first [OF this xs(1) [symmetric, unfolded buf]]
  obtain pre' where pre': "pre = xs @ pre'" "s1 = pre' @ ?eq # ?eq # rest" by blast
  show "matches (Seq (Lit (ustr ''='')) (NotAhead (Lit (ustr ''='')))) m = []"
  proof (cases pre')
    case Nil
    with pre'(2) have "s1 = ?eq # ?eq # rest" by simp
    then show ?thesis unfolding m1 lit by simp
  next
    case (Cons y ys)
    with pre'(1) assms have "y \<noteq> ?eq" by auto
    moreover from Cons pre'(2) have "s1 = y # ys @ ?eq # ?eq # rest" by simp
    ultimately show ?thesis unfolding m1 lit by simp
  qed
qed

lemma EQUALS_ASSIGN_comparison:
  assumes "of_char CHR ''='' \<notin> set pre"
  shows "matches EQUALS_ASSIGN (pre @ ustr ''=='' @ rest, g) = []"
proof -
  let ?eq = "of_char CHR ''='' :: nat"
  let ?tail = "Seq WHITESPACE (Seq (Lit (ustr ''='')) (NotAhead (Lit (ustr ''=''))))"
  have buf: "pre @ ustr ''=='' @ rest = pre @ ?eq # ?eq # rest"
    by (simp add: ustr_def)
  have pat: "EQUALS_ASSIGN = Seq IDENTIFIER_NAMED ?tail"
    by (simp add: EQUALS_ASSIGN_def)
  have "matches (Seq IDENTIFIER_NAMED ?tail) (pre @ ustr ''=='' @ rest, g) = []"
  proof (rule Seq_no_match)
    fix m assume m: "m \<in> set (matches IDENTIFIER_NAMED (pre @ ustr ''=='' @ rest, g))"
    obtain s1 g1 where m1: "m = (s1, g1)" by (cases m)
    from ident_elems [OF m [unfolded IDENTIFIER_NAMED_def IDENTIFIER_RAW_def]] m1
    obtain x xs where xs: "pre @ ustr ''=='' @ rest = (x # xs) @ s1"
      "py_ident_start x" "\<forall>y \<in> set xs. py_ident_char y" by auto
    from xs(2,3) have "?eq \<notin> set (x # xs)"
      using py_ident_not_eq py_start_ident by (metis set_ConsD)
    from before_first [OF this xs(1) [symmetric, unfolded buf]]
    obtain pre' where pre': "pre = (x # xs) @ pre'" "s1 = pre' @ ?eq # ?eq # rest" by blast
    from pre'(1) assms have "?eq \<notin> set pre'" by auto
    from EQUALS_tail_comparison [OF this, of rest g1]
    have "matches ?tail (pre' @ ustr ''=='' @ rest, g1) = []" .
    moreover have "pre' @ ustr ''=='' @ rest = s1"
      using pre'(2) by (simp add: ustr_def)
    ultimately show "matches ?tail m = []" unfolding m1 by (simp only:)
  qed
  then show ?thesis by (simp only: pat)
qed

lemma EQUALS_ASSIGN_skip_comparison:
  assumes "of_char CHR ''='' \<notin> set pre"
  shows "finditer EQUALS_ASSIGN (pre @ ustr ''=='' @ rest) = finditer EQUALS_ASSIGN rest"
  using assms
proof (induction pre)
  case Nil
  have ne: "\<not> py_ident_start (of_char CHR ''='')" by (simp add: class_defs)
  have "ustr ''=='' @ rest = of_char CHR ''='' # of_char CHR ''='' # rest"
    by (simp add: ustr_def)
  then have "finditer EQUALS_ASSIGN ([] @ ustr ''=='' @ rest)
      = finditer EQUALS_ASSIGN (of_char CHR ''='' # of_char CHR ''='' # rest)"
    by simp
  also have "\<dots> = finditer EQUALS_ASSIGN (of_char CHR ''='' # rest)"
    by (rule finditer_skip [OF EQUALS_ASSIGN_not_start [OF ne]])
  also have "\<dots> = finditer EQUALS_ASSIGN rest"
    by (rule finditer_skip [OF EQUALS_ASSIGN_not_start [OF ne]])
  finally show ?case .
next
  case (Cons x pre)
  have "matches EQUALS_ASSIGN ((x # pre) @ ustr ''=='' @ rest, []) = []"
    using Cons.prems by (rule EQUALS_ASSIGN_comparison)
  then have "matches EQUALS_ASSIGN (x # (pre @ ustr ''=='' @ rest), []) = []"
    by (simp only: append_Cons)
  from finditer_skip [OF this] Cons show ?case by simp
qed

subsection \<open>The shape of a match of the \<open>mutate\<close> pattern\<close>

lemma Star_Cls_then:
  assumes "\<forall>x \<in> set w. p x" and "s2 = [] \<or> \<not> p (hd s2)"
    and no: "\<And>x t h. p x \<Longrightarrow> matches b (x # t, h) = []"
  shows "matches (Seq (Star (Cls p)) b) (w @ s2, g) = matches b (s2, g)"
  using assms(1)
proof (induction w)
  case Nil
  from assms(2) show ?case by (simp add: Star_Cls_stop)
next
  case (Cons x w)
  then have "p x" and IH: "matches (Seq (Star (Cls p)) b) (w @ s2, g) = matches b (s2, g)"
    by simp_all
  from \<open>p x\<close> have "matches (Seq (Star (Cls p)) b) ((x # w) @ s2, g)
      = matches (Seq (Star (Cls p)) b) (w @ s2, g) @ matches b (x # w @ s2, g)"
    by (simp add: Star_Cls_Cons)
  with IH no [OF \<open>p x\<close>] show ?case by simp
qed

lemma content_needs:
  "c \<notin> set s \<Longrightarrow> matches (Seq (Grp n (Lazy (Cls any_char))) (Lit [c])) (s, g) = []"
  by (rule Seq_needs_right [where c = c], rule Lit_needs) simp_all

lemma Lit_Seq_Cons:
  "matches (Seq (Lit [c]) b) (x # t, g) = (if x = c then matches b (t, g) else [])"
  by simp

lemma Lit_Seq_Nil: "matches (Seq (Lit [c]) b) ([], g) = []"
  by simp

lemma Lit_Seq_prefix:
  "matches (Seq (Lit l) b) (s, g) \<noteq> [] \<Longrightarrow>
     \<exists>s1. s = l @ s1 \<and> matches (Seq (Lit l) b) (s, g) = matches b (s1, g)"
proof -
  assume ne: "matches (Seq (Lit l) b) (s, g) \<noteq> []"
  then have l: "take (length l) s = l" by (auto split: if_splits)
  then have "s = l @ drop (length l) s" by (metis append_take_drop_id)
  moreover from l have "matches (Seq (Lit l) b) (s, g) = matches b (drop (length l) s, g)"
    by simp
  ultimately show ?thesis by blast
qed

lemma MUTATE_first_shape:
  assumes "first_match MUTATE_PATTERN (s, g) = Some (s', g')"
  shows "\<exists>w xs. s = ustr ''mutate'' @ w @ ustr ''('' @ xs @ ustr '')'' @ s'
           \<and> (\<forall>x \<in> set w. is_space x) \<and> of_char CHR '')'' \<notin> set xs
           \<and> g' = (''content'', xs) # g"
proof -
  let ?open = "of_char CHR ''('' :: nat" and ?close = "of_char CHR '')'' :: nat"
  let ?R2 = "Seq (Grp ''content'' (Lazy (Cls any_char))) (Lit [?close])"
  let ?R = "Seq (Lit [?open]) ?R2"
  have pat: "MUTATE_PATTERN = Seq (Lit (ustr ''mutate'')) (Seq (Star (Cls is_space)) ?R)"
    by (simp add: MUTATE_PATTERN_def ustr_def)
  from assms have ne: "matches MUTATE_PATTERN (s, g) \<noteq> []"
    by (auto simp: first_match_def split: list.splits)
  from Lit_Seq_prefix [OF ne [unfolded pat]] obtain s1 where
    s1: "s = ustr ''mutate'' @ s1"
    "matches MUTATE_PATTERN (s, g) = matches (Seq (Star (Cls is_space)) ?R) (s1, g)"
    unfolding pat by blast
  let ?w = "takeWhile is_space s1" and ?s2 = "dropWhile is_space s1"
  have w: "\<forall>x \<in> set ?w. is_space x" by (auto dest: set_takeWhileD)
  have s2: "?s2 = [] \<or> \<not> is_space (hd ?s2)" by (metis hd_dropWhile)
  have no: "matches ?R (x # t, h) = []" if "is_space x" for x t h
    using that space_not_special [of x] by (simp only: Lit_Seq_Cons) simp
  have "matches (Seq (Star (Cls is_space)) ?R) (?w @ ?s2, g) = matches ?R (?s2, g)"
    using w s2 no by (rule Star_Cls_then)
  with s1(2) have m2: "matches MUTATE_PATTERN (s, g) = matches ?R (?s2, g)" by simp
  have "\<exists>s3. ?s2 = ?open # s3 \<and> matches MUTATE_PATTERN (s, g) = matches ?R2 (s3, g)"
  proof (cases ?s2)
    case Nil
    with ne m2 show ?thesis by (simp only: Lit_Seq_Nil) simp
  next
    case (Cons y s3)
    with ne m2 have "(if y = ?open then matches ?R2 (s3, g) else []) \<noteq> []"
      by (simp only: Lit_Seq_Cons not_False_eq_True)
    then have "y = ?open" by (simp split: if_splits)
    with Cons m2 have "?s2 = ?open # s3 \<and> matches MUTATE_PATTERN (s, g) = matches ?R2 (s3, g)"
      by (simp only: Lit_Seq_Cons refl if_True simp_thms)
    then show ?thesis by blast
  qed
  then obtain s3 where s3: "?s2 = ?open # s3"
    "matches MUTATE_PATTERN (s, g) = matches ?R2 (s3, g)" by blast
  have "?close \<in> set s3"
  proof (rule ccontr)
    assume "?close \<notin> set s3"
    then have "matches ?R2 (s3, g) = []" by (rule content_needs)
    with s3(2) have "matches MUTATE_PATTERN (s, g) = []" by (rule trans)
    with ne show False by blast
  qed
  from split_list_first [OF this] obtain xs ys where
    xs: "s3 = xs @ ?close # ys" "?close \<notin> set xs" by blast
  from first_content [OF xs(2), of "''content''" ys g] xs(1)
  have "first_match ?R2 (s3, g) = Some (ys, (''content'', xs) # g)" by simp
  with s3(2) have "first_match MUTATE_PATTERN (s, g) = Some (ys, (''content'', xs) # g)"
    by (simp add: first_match_def)
  with assms have eq: "s' = ys" "g' = (''content'', xs) # g" by simp_all
  have "s1 = ?w @ ?s2" by simp
  with s1(1) s3(1) xs(1) eq(1)
  have "s = ustr ''mutate'' @ ?w @ ustr ''('' @ xs @ ustr '')'' @ s'"
    by (simp add: ustr_def)
  with w xs(2) eq(2) show ?thesis by blast
qed

lemma mutate_elems:
  assumes "m \<in> set (finditer MUTATE_PATTERN content)"
  shows "\<exists>pre w post. content
            = pre @ ustr ''mutate'' @ w @ ustr ''('' @ group m ''content'' @ ustr '')'' @ post
          \<and> list_all is_space w \<and> of_char CHR '')'' \<notin> set (group m ''content'')"
proof -
  from finditer_elems [OF assms] obtain pre t s' where
    t: "content = pre @ t" "first_match MUTATE_PATTERN (t, []) = Some (s', m)" by blast
  from MUTATE_first_shape [OF t(2)] obtain w xs where
    w: "t = ustr ''mutate'' @ w @ ustr ''('' @ xs @ ustr '')'' @ s'"
    "\<forall>x \<in> set w. is_space x" "of_char CHR '')'' \<notin> set xs" "m = [(''content'', xs)]"
    by blast
  from w(4) have "group m ''content'' = xs" by (simp add: group_def)
  with t(1) w(1,2,3)
  have "content = pre @ ustr ''mutate'' @ w @ ustr ''('' @ group m ''content'' @ ustr '')'' @ s'
      \<and> list_all is_space w \<and> of_char CHR '')'' \<notin> set (group m ''content'')"
    by (simp add: list_all_iff)
  then show ?thesis by blast
qed

lemma no_mutate_call:
  assumes "\<And>pre post. content \<noteq> pre @ ustr ''mutate'' @ post"
  shows "finditer MUTATE_PATTERN content = []"
proof (rule ccontr)
  assume "finditer MUTATE_PATTERN content \<noteq> []"
  then obtain m where "m \<in> set (finditer MUTATE_PATTERN content)"
    by (cases "finditer MUTATE_PATTERN content") auto
  from mutate_elems [OF this] obtain pre w post where
    "content = pre @ ustr ''mutate'' @ w @ ustr ''('' @ group m ''content'' @ ustr '')'' @ post"
    by blast
  with assms [of pre "w @ ustr ''('' @ group m ''content'' @ ustr '')'' @ post"]
  show False by simp
qed

subsection \<open>The scans as counts of the matches\<close>

lemma py_equals_loop_tally:
  "py_equals_loop get_python_patterns content local_counts
     = tally local_counts (filter (\<lambda>var. var \<notin> set py_keywords)
         (varnames (finditer EQUALS_ASSIGN content)))"
  by (simp only: py_equals_loop_def foldl_guarded) (simp add: get_python_patterns_def)

lemma r_scan_occurrences:
  "r_scan get_r_patterns content
     = tally [] (varnames (finditer R_ASSIGN content)
         @ varnames (finditer R_WALRUS_ASSIGN content)
         @ concat (map (\<lambda>m. varnames (finditer R_EQUALS_ASSIGN (group m ''content'')))
                       (finditer MUTATE_PATTERN content)))"
  by (simp only: r_scan_tally r_occurrences_def) (simp add: get_r_patterns_def)

lemma py_scan_counts_equals:
  assumes "var \<in> set (varnames (finditer EQUALS_ASSIGN content))" and "var \<notin> set py_keywords"
  shows "0 < dict_get (py_scan get_python_patterns content) var 0"
proof -
  let ?occ = "filter (\<lambda>v. v \<notin> set py_keywords) (varnames (finditer EQUALS_ASSIGN content))"
  from assms have "var \<in> set ?occ" by simp
  then have "0 < count_list ?occ var" by (meson count_list_0_iff gr0I)
  moreover have "dict_get (py_equals_loop get_python_patterns content []) var 0
      = count_list ?occ var"
    by (simp only: py_equals_loop_tally dict_get_tally) simp
  moreover have "dict_get (py_equals_loop get_python_patterns content []) var 0
      \<le> dict_get (py_scan get_python_patterns content) var 0"
    by (simp only: py_scan_def py_walrus_loop_def py_multi_loop_def py_augmented_loop_def
        py_for_loop_def foldl_varnames foldl_tally_concat dict_get_tally)
  ultimately show ?thesis by simp
qed


subsection \<open>Example buffers\<close>

lemma two_assignments_scan_to:
  "scan_to EQUALS_ASSIGN (ustr ''a = 1\<newline>x = 2'') (ustr ''x = 2'')
     = Some [[(''varname'', ustr ''a'')]]"
  by (simp add: eval_simps)

lemma comparison_scan_to:
  "scan_to EQUALS_ASSIGN (ustr ''a = 1\<newline>if x == 2: y = 3'') (ustr ''x == 2: y = 3'')
     = Some [[(''varname'', ustr ''a'')]]"
  by (simp add: eval_simps)

lemma py_scan_comparison:
  "py_scan get_python_patterns (ustr ''a = 1\<newline>if x == 2: y = 3'')
     = [(ustr ''a'', 1), (ustr ''y'', 1)]"
  by (simp add: eval_simps)

lemma mutate_call_finditer:
  "finditer MUTATE_PATTERN (ustr ''df <- mutate(df, y = x + 1)'')
     = [[(''content'', ustr ''df, y = x + 1'')]]"
  by (simp add: eval_simps)

lemma r_scan_mutate_call:
  "r_scan get_r_patterns (ustr ''df <- mutate(df, y = x + 1)'')
     = [(ustr ''df'', 1), (ustr ''y'', 1)]"
  by (simp add: eval_simps)


section \<open>The claims\<close>

text \<open>
  C1 (as stated): scanning \<open>a, b, c = 1, 2, 3\<close> as Python gives exactly one occurrence each
  for \<open>a\<close>, \<open>b\<close> and \<open>c\<close>, summed over all rules. It does not: \<open>c\<close> is counted twice.
\<close>

theorem C1_counterexample:
  "dict_get (py_scan get_python_patterns (ustr ''a, b, c = 1, 2, 3'')) (ustr ''c'') 0 \<noteq> 1"
  by (simp add: py_scan_multi_target)

text \<open>
  C1 (amended): on the buffer \<open>a, b, c = 1, 2, 3\<close> the multi-target rule counts \<open>a\<close>, \<open>b\<close> and
  \<open>c\<close> once each; the last target \<open>c =\<close> is also a match of the simple-assignment rule, and
  the counts of the rules add up, so the scan yields \<open>c\<close>: 2, \<open>a\<close>: 1, \<open>b\<close>: 1. The
  right-hand-side tokens \<open>1\<close>, \<open>2\<close> and \<open>3\<close> have no occurrence.
\<close>

theorem C1_multi_target:
  "py_multi_loop get_python_patterns (ustr ''a, b, c = 1, 2, 3'') [] =
     [(ustr ''a'', 1), (ustr ''b'', 1), (ustr ''c'', 1)]
   \<and> py_equals_loop get_python_patterns (ustr ''a, b, c = 1, 2, 3'') [] = [(ustr ''c'', 1)]
   \<and> py_scan get_python_patterns (ustr ''a, b, c = 1, 2, 3'') =
       [(ustr ''c'', 2), (ustr ''a'', 1), (ustr ''b'', 1)]
   \<and> dict_get (py_scan get_python_patterns (ustr ''a, b, c = 1, 2, 3'')) (ustr ''1'') 0 = 0
   \<and> dict_get (py_scan get_python_patterns (ustr ''a, b, c = 1, 2, 3'')) (ustr ''2'') 0 = 0
   \<and> dict_get (py_scan get_python_patterns (ustr ''a, b, c = 1, 2, 3'')) (ustr ''3'') 0 = 0"
  by (simp add: py_scan_multi_target py_multi_multi_target py_equals_multi_target)
     (simp add: ustr_def)

text \<open>
  C9: scanning \<open>mutate(x = y + 1, z = 2)\<close> as R yields exactly the mapping \<open>x\<close>: 1, \<open>z\<close>: 1.
  Each keyword argument of the \<open>mutate\<close> call counts once; \<open>y\<close> on the right-hand side
  is not counted.
\<close>

theorem C9_mutate_scenario:
  "r_scan get_r_patterns (ustr ''mutate(x = y + 1, z = 2)'') = [(ustr ''x'', 1), (ustr ''z'', 1)]
   \<and> dict_get (r_scan get_r_patterns (ustr ''mutate(x = y + 1, z = 2)'')) (ustr ''y'') 0 = 0"
  by (simp add: r_scan_mutate) (simp add: ustr_def)

text \<open>
  C4: whenever a language pass returns a ranking, the count of every identifier in it is
  the sum of the identifier's counts in the local mappings that the analyses of the
  candidate files returned (a file that cannot be read has the empty mapping); and the
  counts of the ranking add up to the number of occurrences that the rules matched in the
  processed files. This holds for the Python pass and for the R pass.
\<close>

theorem C4_global_counts:
  "(py_count_variables out fs directory tree = Inr (py_ranking, py_processed) \<longrightarrow>
      dict_get py_ranking var 0
        = sum_list (map (\<lambda>p. dict_get (returned_counts
                                 (analyze_python_file out fs p get_python_patterns)) var 0)
            (py_candidate_paths directory tree))
      \<and> sum_list (map snd py_ranking)
        = sum_list (map (\<lambda>p. length (py_file_occurrences fs p)) py_processed))
   \<and> (r_count_variables out fs directory tree = Inr (r_ranking, r_processed) \<longrightarrow>
      dict_get r_ranking var 0
        = sum_list (map (\<lambda>p. dict_get (returned_counts
                                 (analyze_r_file out fs p get_r_patterns)) var 0)
            (r_candidate_paths directory tree))
      \<and> sum_list (map snd r_ranking)
        = sum_list (map (\<lambda>p. length (r_file_occurrences fs p)) r_processed))"
proof (intro conjI impI)
  assume py: "py_count_variables out fs directory tree = Inr (py_ranking, py_processed)"
  have r: "py_ranking = fst (py_result fs directory tree)"
    and p: "py_processed = snd (py_result fs directory tree)"
    using py_count_variables_returns(1,2) [OF py] by (simp_all add: py_result_def)
  show "dict_get py_ranking var 0
        = sum_list (map (\<lambda>p. dict_get (returned_counts
                                 (analyze_python_file out fs p get_python_patterns)) var 0)
            (py_candidate_paths directory tree))"
    unfolding r returned_counts_py by (rule py_global_count)
  show "sum_list (map snd py_ranking)
        = sum_list (map (\<lambda>p. length (py_file_occurrences fs p)) py_processed)"
    unfolding r p by (rule py_ranking_total)
next
  assume rr: "r_count_variables out fs directory tree = Inr (r_ranking, r_processed)"
  have r: "r_ranking = fst (r_result fs directory tree)"
    and p: "r_processed = snd (r_result fs directory tree)"
    using r_count_variables_returns(1,2) [OF rr] by (simp_all add: r_result_def)
  show "dict_get r_ranking var 0
        = sum_list (map (\<lambda>p. dict_get (returned_counts
                                 (analyze_r_file out fs p get_r_patterns)) var 0)
            (r_candidate_paths directory tree))"
    unfolding r returned_counts_r by (rule r_global_count)
  show "sum_list (map snd r_ranking)
        = sum_list (map (\<lambda>p. length (r_file_occurrences fs p)) r_processed)"
    unfolding r p by (rule r_ranking_total)
qed

theorem C4_global_counts_witness:
  "py_count_variables example_console example_fs (ustr ''proj'') example_tree
     = Inr ([(ustr ''x'', 3), (ustr ''y'', 1), (ustr ''z'', 1)],
            [ustr ''proj/a.py'', ustr ''proj/pkg/c.py''])
   \<and> r_count_variables example_console example_fs (ustr ''proj'') example_tree
     = Inr ([(ustr ''x'', 1), (ustr ''y'', 1), (ustr ''z'', 1)], [ustr ''proj/s.R''])
   \<and> sum_list (map (\<lambda>p. dict_get (returned_counts
         (analyze_python_file example_console example_fs p get_python_patterns)) (ustr ''x'') 0)
       (py_candidate_paths (ustr ''proj'') example_tree)) = 3
   \<and> sum_list (map (\<lambda>p. length (py_file_occurrences example_fs p))
       [ustr ''proj/a.py'', ustr ''proj/pkg/c.py'']) = 5
   \<and> sum_list (map (\<lambda>p. length (r_file_occurrences example_fs p)) [ustr ''proj/s.R'']) = 3"
  using C4_global_counts [of example_console example_fs "ustr ''proj''" example_tree
      "[(ustr ''x'', 3), (ustr ''y'', 1), (ustr ''z'', 1)]"
      "[ustr ''proj/a.py'', ustr ''proj/pkg/c.py'']" "ustr ''x''"
      "[(ustr ''x'', 1), (ustr ''y'', 1), (ustr ''z'', 1)]" "[ustr ''proj/s.R'']"]
    example_py_count_variables example_r_count_variables
  by simp

text \<open>
  C5: whenever a language pass returns a ranking, the ranking is sorted by count in
  descending order, so of two adjacent entries with different counts the earlier one has
  the strictly greater count; and the sort is stable: the entries with a given count are
  in the ranking in the order in which they are in the folded global mapping, which is the
  order of insertion.
\<close>

theorem C5_ranking_sorted_stable:
  "(py_count_variables out fs directory tree = Inr (py_ranking, py_processed) \<longrightarrow>
      (\<exists>counts. py_walk_loop out fs directory tree = Inr (counts, py_processed)
        \<and> (\<forall>i. Suc i < length py_ranking \<longrightarrow>
              snd (py_ranking ! Suc i) \<le> snd (py_ranking ! i)
              \<and> (snd (py_ranking ! i) \<noteq> snd (py_ranking ! Suc i)
                    \<longrightarrow> snd (py_ranking ! Suc i) < snd (py_ranking ! i)))
        \<and> (\<forall>n. filter (\<lambda>e. snd e = n) py_ranking = filter (\<lambda>e. snd e = n) counts)))
   \<and> (r_count_variables out fs directory tree = Inr (r_ranking, r_processed) \<longrightarrow>
      (\<exists>counts. r_walk_loop out fs directory tree = Inr (counts, r_processed)
        \<and> (\<forall>i. Suc i < length r_ranking \<longrightarrow>
              snd (r_ranking ! Suc i) \<le> snd (r_ranking ! i)
              \<and> (snd (r_ranking ! i) \<noteq> snd (r_ranking ! Suc i)
                    \<longrightarrow> snd (r_ranking ! Suc i) < snd (r_ranking ! i)))
        \<and> (\<forall>n. filter (\<lambda>e. snd e = n) r_ranking = filter (\<lambda>e. snd e = n) counts)))"
proof (intro conjI impI)
  assume py: "py_count_variables out fs directory tree = Inr (py_ranking, py_processed)"
  note ret = py_count_variables_returns [OF py]
  show "\<exists>counts. py_walk_loop out fs directory tree = Inr (counts, py_processed)
        \<and> (\<forall>i. Suc i < length py_ranking \<longrightarrow>
              snd (py_ranking ! Suc i) \<le> snd (py_ranking ! i)
              \<and> (snd (py_ranking ! i) \<noteq> snd (py_ranking ! Suc i)
                    \<longrightarrow> snd (py_ranking ! Suc i) < snd (py_ranking ! i)))
        \<and> (\<forall>n. filter (\<lambda>e. snd e = n) py_ranking = filter (\<lambda>e. snd e = n) counts)"
    unfolding ret(1) using ret(3) ranking_adjacent sorted_reverse_stable by blast
next
  assume rr: "r_count_variables out fs directory tree = Inr (r_ranking, r_processed)"
  note ret = r_count_variables_returns [OF rr]
  show "\<exists>counts. r_walk_loop out fs directory tree = Inr (counts, r_processed)
        \<and> (\<forall>i. Suc i < length r_ranking \<longrightarrow>
              snd (r_ranking ! Suc i) \<le> snd (r_ranking ! i)
              \<and> (snd (r_ranking ! i) \<noteq> snd (r_ranking ! Suc i)
                    \<longrightarrow> snd (r_ranking ! Suc i) < snd (r_ranking ! i)))
        \<and> (\<forall>n. filter (\<lambda>e. snd e = n) r_ranking = filter (\<lambda>e. snd e = n) counts)"
    unfolding ret(1) using ret(3) ranking_adjacent sorted_reverse_stable by blast
qed

theorem C5_ranking_sorted_stable_witness:
  "py_count_variables example_console example_fs (ustr ''proj'') example_tree
     = Inr ([(ustr ''x'', 3), (ustr ''y'', 1), (ustr ''z'', 1)],
            [ustr ''proj/a.py'', ustr ''proj/pkg/c.py''])
   \<and> r_count_variables example_console example_fs (ustr ''proj'') example_tree
     = Inr ([(ustr ''x'', 1), (ustr ''y'', 1), (ustr ''z'', 1)], [ustr ''proj/s.R''])
   \<and> py_walk_loop example_console example_fs (ustr ''proj'') example_tree
     = Inr ([(ustr ''y'', 1), (ustr ''x'', 3), (ustr ''z'', 1)],
            [ustr ''proj/a.py'', ustr ''proj/pkg/c.py''])
   \<and> Suc 0 < length [(ustr ''x'', 3::nat), (ustr ''y'', 1), (ustr ''z'', 1)]
   \<and> snd ([(ustr ''x'', 3::nat), (ustr ''y'', 1), (ustr ''z'', 1)] ! Suc 0)
       < snd ([(ustr ''x'', 3::nat), (ustr ''y'', 1), (ustr ''z'', 1)] ! 0)
   \<and> filter (\<lambda>e. snd e = 1) [(ustr ''x'', 3::nat), (ustr ''y'', 1), (ustr ''z'', 1)]
       = filter (\<lambda>e. snd e = 1) [(ustr ''y'', 1::nat), (ustr ''x'', 3), (ustr ''z'', 1)]"
  using C5_ranking_sorted_stable [of example_console example_fs "ustr ''proj''" example_tree
      "[(ustr ''x'', 3), (ustr ''y'', 1), (ustr ''z'', 1)]"
      "[ustr ''proj/a.py'', ustr ''proj/pkg/c.py'']"
      "[(ustr ''x'', 1), (ustr ''y'', 1), (ustr ''z'', 1)]" "[ustr ''proj/s.R'']"]
    example_py_count_variables example_r_count_variables example_py_walk_loop
  by simp

text \<open>
  C8: the loop over the matches of the Python simple-assignment pattern never counts an
  identifier of the keyword list (\<open>if\<close>, \<open>while\<close>, \<open>for\<close>, \<open>elif\<close>, \<open>return\<close>, \<open>and\<close>,
  \<open>or\<close>, \<open>not\<close>, \<open>is\<close>, \<open>in\<close>, \<open>None\<close>, \<open>True\<close>, \<open>False\<close>): whatever the buffer, the count
  of such an identifier is after the loop what it was before, also when the pattern
  matches the keyword followed by a single \<open>=\<close>, as in \<open>if = 3\<close>.
\<close>

theorem C8_keyword_denylist:
  assumes "kw \<in> set py_keywords"
  shows "dict_get (py_equals_loop patterns content local_counts) kw 0 = dict_get local_counts kw 0"
proof -
  have "py_equals_loop patterns content local_counts
          = tally local_counts (filter (\<lambda>var. var \<notin> set py_keywords)
              (varnames (finditer (equals patterns) content)))"
    by (simp only: py_equals_loop_def foldl_guarded)
  moreover have "kw \<notin> set (filter (\<lambda>var. var \<notin> set py_keywords)
              (varnames (finditer (equals patterns) content)))"
    using assms by simp
  ultimately show ?thesis by (simp add: dict_get_tally)
qed

theorem C8_keyword_denylist_witness:
  "ustr ''if'' \<in> set py_keywords
   \<and> varnames (finditer (equals get_python_patterns) (ustr ''if = 3'')) = [ustr ''if'']
   \<and> dict_get (py_equals_loop get_python_patterns (ustr ''if = 3'') []) (ustr ''if'') 0 = 0"
proof -
  have kw: "ustr ''if'' \<in> set py_keywords" by (simp add: py_keywords_def)
  show ?thesis
    using kw C8_keyword_denylist [OF kw, of get_python_patterns "ustr ''if = 3''" "[]"]
      finditer_if_assign by simp
qed

text \<open>
  C6: the two rankings are the sorted items of the global mappings of the two passes,
  which have distinct keys. Whatever the order in which the set of shared identifiers is
  visited, \<open>find_shared_variables\<close> returns a list of records (no \<open>KeyError\<close> is raised)
  that has, for every identifier in both rankings, exactly one record, whose counts are
  the identifier's counts in the two global mappings; the records are of the shared
  identifiers only, and the list is sorted by the sum of the two counts in descending
  order.
\<close>

theorem C6_shared_variables:
  assumes py: "distinct (map fst py_counts)"
    and r: "distinct (map fst r_counts)"
    and order_set:
      "set (iter_order (set (map fst (sorted_reverse snd py_counts))
                          \<inter> set (map fst (sorted_reverse snd r_counts))))
         = set (map fst py_counts) \<inter> set (map fst r_counts)"
    and order_distinct:
      "distinct (iter_order (set (map fst (sorted_reverse snd py_counts))
                               \<inter> set (map fst (sorted_reverse snd r_counts))))"
  shows "\<exists>records.
      find_shared_variables iter_order (sorted_reverse snd py_counts) (sorted_reverse snd r_counts)
        = Some records
      \<and> (\<forall>var \<in> set (map fst py_counts) \<inter> set (map fst r_counts).
            filter (\<lambda>record. fst record = var) records
              = [(var, dict_get py_counts var 0, dict_get r_counts var 0)])
      \<and> fst ` set records = set (map fst py_counts) \<inter> set (map fst r_counts)
      \<and> sorted_wrt (\<lambda>(x, a, b) (y, c, d). c + d \<le> a + b) records"
proof -
  let ?py = "sorted_reverse snd py_counts" and ?r = "sorted_reverse snd r_counts"
  let ?vars = "iter_order (set (map fst ?py) \<inter> set (map fst ?r))"
  let ?key = "\<lambda>(var, py_count, r_count). py_count + r_count :: nat"
  let ?unsorted = "map (\<lambda>var. (var, dict_get ?py var 0, dict_get ?r var 0)) ?vars"
  let ?records = "sorted_reverse ?key ?unsorted"
  have dpy: "dict_of_items ?py = ?py" and dr: "dict_of_items ?r = ?r"
    using py r by (simp_all add: dict_of_items_distinct distinct_sorted_reverse)
  have keys: "set (map fst ?py) = set (map fst py_counts)" "set (map fst ?r) = set (map fst r_counts)"
    by (simp_all add: set_sorted_reverse)
  have present: "\<And>var. var \<in> set ?vars \<Longrightarrow> var \<in> set (map fst ?py) \<and> var \<in> set (map fst ?r)"
    using order_set keys by auto
  have loop: "shared_loop ?py ?r ?vars [] = Some ?unsorted"
    using shared_loop_present [of ?vars ?py ?r "[]", OF present] by simp
  have result: "find_shared_variables iter_order ?py ?r = Some ?records"
    unfolding find_shared_variables_def Let_def dpy dr loop by simp
  have gets: "\<And>var. dict_get ?py var 0 = dict_get py_counts var 0"
      "\<And>var. dict_get ?r var 0 = dict_get r_counts var 0"
    using py r by (simp_all add: dict_get_sorted_reverse)
  have each: "\<forall>var \<in> set (map fst py_counts) \<inter> set (map fst r_counts).
      filter (\<lambda>record. fst record = var) ?records
        = [(var, dict_get py_counts var 0, dict_get r_counts var 0)]"
  proof
    fix var assume "var \<in> set (map fst py_counts) \<inter> set (map fst r_counts)"
    then have "var \<in> set ?vars" using order_set by simp
    then have "filter (\<lambda>record. fst record = var) ?unsorted
        = [(var, dict_get ?py var 0, dict_get ?r var 0)]"
      using order_distinct by (rule filter_records_distinct [rotated])
    then show "filter (\<lambda>record. fst record = var) ?records
        = [(var, dict_get py_counts var 0, dict_get r_counts var 0)]"
      by (simp add: filter_sorted_reverse_single gets)
  qed
  have vars: "fst ` set ?records = set (map fst py_counts) \<inter> set (map fst r_counts)"
    using order_set by (simp add: set_sorted_reverse image_image)
  have "sorted_wrt (\<lambda>a b. ?key b \<le> ?key a) ?records"
    by (rule sorted_reverse_descending)
  then have sorted: "sorted_wrt (\<lambda>(x, a, b) (y, c, d). c + d \<le> a + b) ?records"
    by (rule sorted_wrt_mono_rel [rotated]) auto
  from result each vars sorted show ?thesis by blast
qed

theorem C6_shared_variables_witness:
  "distinct (map fst [(ustr ''y'', 1::nat), (ustr ''x'', 3), (ustr ''z'', 1)])
   \<and> distinct (map fst [(ustr ''x'', 1::nat), (ustr ''y'', 1), (ustr ''z'', 1)])
   \<and> set (example_iter_order
        (set (map fst (sorted_reverse snd [(ustr ''y'', 1), (ustr ''x'', 3), (ustr ''z'', 1)]))
         \<inter> set (map fst (sorted_reverse snd [(ustr ''x'', 1), (ustr ''y'', 1), (ustr ''z'', 1)]))))
       = set (map fst [(ustr ''y'', 1::nat), (ustr ''x'', 3), (ustr ''z'', 1)])
         \<inter> set (map fst [(ustr ''x'', 1::nat), (ustr ''y'', 1), (ustr ''z'', 1)])
   \<and> find_shared_variables example_iter_order
        (sorted_reverse snd [(ustr ''y'', 1), (ustr ''x'', 3), (ustr ''z'', 1)])
        (sorted_reverse snd [(ustr ''x'', 1), (ustr ''y'', 1), (ustr ''z'', 1)])
       = Some [(ustr ''x'', 3, 1), (ustr ''z'', 1, 1), (ustr ''y'', 1, 1)]
   \<and> filter (\<lambda>record. fst record = ustr ''x'')
         [(ustr ''x'', 3::nat, 1::nat), (ustr ''z'', 1, 1), (ustr ''y'', 1, 1)]
       = [(ustr ''x'',
           dict_get [(ustr ''y'', 1), (ustr ''x'', 3), (ustr ''z'', 1)] (ustr ''x'') 0,
           dict_get [(ustr ''x'', 1), (ustr ''y'', 1), (ustr ''z'', 1)] (ustr ''x'') 0)]"
proof -
  let ?py = "[(ustr ''y'', 1::nat), (ustr ''x'', 3), (ustr ''z'', 1)]"
  let ?r = "[(ustr ''x'', 1::nat), (ustr ''y'', 1), (ustr ''z'', 1)]"
  have h1: "distinct (map fst ?py)" and h2: "distinct (map fst ?r)"
    by (simp_all add: ustr_def)
  have h3: "set (example_iter_order (set (map fst (sorted_reverse snd ?py))
                   \<inter> set (map fst (sorted_reverse snd ?r))))
              = set (map fst ?py) \<inter> set (map fst ?r)"
    by (simp add: example_iter_order_def sorted_reverse_def) (auto simp: ustr_def)
  have h4: "distinct (example_iter_order (set (map fst (sorted_reverse snd ?py))
                   \<inter> set (map fst (sorted_reverse snd ?r))))"
    by (simp add: example_iter_order_def sorted_reverse_def) (simp add: ustr_def)
  have x: "ustr ''x'' \<in> set (map fst ?py) \<inter> set (map fst ?r)" by simp
  from C6_shared_variables [where py_counts = ?py and r_counts = ?r
      and iter_order = example_iter_order, OF h1 h2 h3 h4] x h1 h2 h3 show ?thesis
    by (simp only: example_shared) auto
qed

text \<open>
  C7: when reading a file fails, the analysis is to return the empty mapping and the flag
  \<open>False\<close> without raising, and the scan is to go on. The \<open>except\<close> branch prints before
  it returns, and that \<open>print\<close> can raise: for the unreadable file \<open>bad\xff.py\<close> and a
  strict UTF-8 standard output the diagnostic line cannot be encoded, the exception leaves
  \<open>analyze_python_file\<close> and \<open>count_variables\<close>, and no ranking is returned. (When the
  line is printed, the analysis returns the empty mapping and \<open>False\<close>, and the processed
  files are the readable candidate files: \<open>read_failure_printed\<close>, \<open>py_processed_files\<close>.)
\<close>

theorem C7_print_failure:
  "bad_fs (ustr ''data/'' @ bad_name) = None
   \<and> analyze_python_file strict_console bad_fs (ustr ''data/'' @ bad_name) get_python_patterns
       = Inl PrintError
   \<and> py_count_variables strict_console bad_fs (ustr ''data'') bad_tree = Inl PrintError"
  by (simp add: py_count_variables_cases bad_candidates handled_def bad_unreadable
      bad_not_printed read_failure_not_printed)

text \<open>
  C2 (as stated): for each of the two languages the pattern set has a loop-binding rule,
  so that in every scanned buffer the identifier between \<open>for\<close> and \<open>in\<close> counts once.
  The R scanner has no such rule: on the buffer \<open>for i in x\<close> it counts nothing for \<open>i\<close>.
  In the Python scanner the rule does not reach every \<open>for <id> in\<close> of a buffer either:
  the matches of the rule do not overlap, so in \<open>for for index in x\<close> the match that
  starts at the first \<open>for\<close> takes the second \<open>for\<close> as its identifier and the first two
  letters of \<open>index\<close> as its \<open>in\<close>, and nothing is counted for \<open>index\<close>.
\<close>

theorem C2_counterexample:
  "dict_get (r_scan get_r_patterns (ustr ''for i in x'')) (ustr ''i'') 0 \<noteq> 1
   \<and> dict_get (py_scan get_python_patterns (ustr ''for for index in x'')) (ustr ''index'') 0 \<noteq> 1"
  by (simp add: r_scan_for py_scan_for_for) (simp add: ustr_def)

text \<open>
  C2 (amended): the pattern set of the first language has a loop-binding rule. Wherever in
  a buffer the search of \<open>finditer\<close> for the \<open>for_loop\<close> pattern stands at \<open>for\<close>,
  optional whitespace, an identifier, whitespace and \<open>in\<close> (no earlier match of the rule
  has read past that \<open>for\<close>), the rule matches there with the identifier as its
  \<open>varname\<close>, the search goes on with the text after \<open>in\<close>, the loop over the matches
  counts one occurrence for the identifier, and the scan of the buffer counts the
  identifier at least once. The pattern set of the second language has no loop-binding
  rule: scanning \<open>for\<close>, whitespace, the identifier, whitespace and \<open>in\<close> as R yields the
  empty mapping.
\<close>

theorem C2_loop_binding:
  assumes "py_ident_start c" and "\<forall>x \<in> set cs. py_ident_char x"
    and "\<forall>x \<in> set w1. is_space x" and "\<forall>x \<in> set w2. is_space x" and "w2 \<noteq> []"
    and "scan_to FOR_LOOP content (ustr ''for'' @ w1 @ (c # cs) @ w2 @ ustr ''in'' @ rest)
           = Some before"
  shows "finditer FOR_LOOP content
           = before @ [(''varname'', c # cs)] # finditer FOR_LOOP rest
     \<and> py_for_loop get_python_patterns content local_counts
         = py_for_loop get_python_patterns rest
             (add_count (tally local_counts (varnames before)) (c # cs) 1)
     \<and> dict_get (py_for_loop get_python_patterns content local_counts) (c # cs) 0
         = Suc (dict_get local_counts (c # cs) 0 + count_list (varnames before) (c # cs)
                + count_list (varnames (finditer FOR_LOOP rest)) (c # cs))
     \<and> 0 < dict_get (py_scan get_python_patterns content) (c # cs) 0
     \<and> r_scan get_r_patterns (ustr ''for'' @ w1 @ (c # cs) @ w2 @ ustr ''in'') = []"
proof -
  have found: "finditer FOR_LOOP content
      = before @ [(''varname'', c # cs)] # finditer FOR_LOOP rest"
    using scan_to_finditer [OF assms(6)] FOR_LOOP_finditer [OF assms(1-5), of rest] by simp
  have names: "varnames (finditer FOR_LOOP content)
      = varnames before @ (c # cs) # varnames (finditer FOR_LOOP rest)"
    by (simp only: found varnames_append varnames_Cons)
  have loop: "py_for_loop get_python_patterns content d
      = py_for_loop get_python_patterns rest (add_count (tally d (varnames before)) (c # cs) 1)"
    for d
    by (simp only: py_for_loop_tally names tally_append tally_Cons)
  have get: "dict_get (py_for_loop get_python_patterns content d) (c # cs) 0
      = Suc (dict_get d (c # cs) 0 + count_list (varnames before) (c # cs)
             + count_list (varnames (finditer FOR_LOOP rest)) (c # cs))" for d
    by (simp add: py_for_loop_tally names dict_get_tally)
  have "0 < dict_get (py_scan get_python_patterns content) (c # cs) 0"
    by (simp add: py_scan_def get)
  moreover have "r_scan get_r_patterns (ustr ''for'' @ w1 @ (c # cs) @ w2 @ ustr ''in'') = []"
  proof (rule r_scan_needs)
    have ident: "\<forall>x \<in> set (c # cs). py_ident_char x"
      using assms(1,2) by (simp add: py_start_ident)
    have lit: "\<forall>x \<in> set (ustr ''for'' @ ustr ''in''). py_ident_char x"
      by (simp add: class_defs)
    have all: "\<forall>x \<in> set (ustr ''for'' @ w1 @ (c # cs) @ w2 @ ustr ''in'').
        py_ident_char x \<or> is_space x"
      using ident lit assms(3,4) by auto
    show "of_char CHR ''<'' \<notin> set (ustr ''for'' @ w1 @ (c # cs) @ w2 @ ustr ''in'')"
      using all py_ident_not_special space_not_special by blast
    show "of_char CHR '':'' \<notin> set (ustr ''for'' @ w1 @ (c # cs) @ w2 @ ustr ''in'')"
      using all py_ident_not_special space_not_special by blast
    show "of_char CHR ''('' \<notin> set (ustr ''for'' @ w1 @ (c # cs) @ w2 @ ustr ''in'')"
      using all py_ident_not_special space_not_special by blast
  qed
  ultimately show ?thesis using found loop get by blast
qed

theorem C2_loop_binding_witness:
  "py_ident_start (of_char CHR ''i'') \<and> is_space (of_char CHR '' '') \<and> ustr '' '' \<noteq> []
   \<and> scan_to FOR_LOOP (ustr ''for j in a:\<newline>for i in b:'') (ustr ''for i in b:'')
       = Some [[(''varname'', ustr ''j'')]]
   \<and> finditer FOR_LOOP (ustr ''for j in a:\<newline>for i in b:'')
       = [(''varname'', ustr ''j'')] # [(''varname'', ustr ''i'')] # finditer FOR_LOOP (ustr '' b:'')
   \<and> py_scan get_python_patterns (ustr ''for j in a:\<newline>for i in b:'')
       = [(ustr ''j'', 1), (ustr ''i'', 1)]
   \<and> 0 < dict_get (py_scan get_python_patterns (ustr ''for j in a:\<newline>for i in b:''))
           (ustr ''i'') 0
   \<and> r_scan get_r_patterns (ustr ''for i in'') = []"
proof -
  have h1: "py_ident_start (of_char CHR ''i'')" by (simp add: class_defs)
  have h2: "\<forall>x \<in> set []. py_ident_char x" by simp
  have h3: "\<forall>x \<in> set (ustr '' ''). is_space x" by (simp add: class_defs)
  have h5: "ustr '' '' \<noteq> []" by (simp add: ustr_def)
  have sp: "is_space (of_char CHR '' '')" by (simp add: class_defs)
  have h6: "scan_to FOR_LOOP (ustr ''for j in a:\<newline>for i in b:'')
      (ustr ''for'' @ ustr '' '' @ (of_char CHR ''i'' # []) @ ustr '' '' @ ustr ''in'' @ ustr '' b:'')
      = Some [[(''varname'', ustr ''j'')]]"
    using two_loops_scan_to by (simp add: ustr_def)
  from C2_loop_binding [OF h1 h2 h3 h3 h5 h6, of "[]"] h1 sp h5 two_loops_scan_to two_loops_scan
  show ?thesis by (simp add: ustr_def)
qed

text \<open>
  C3 (as stated): for each of the two languages the simple-assignment rule is applied to
  the entire buffer, and the R buffer \<open>x = 1\<close> yields one occurrence of \<open>x\<close>. The R scanner
  applies its equals pattern to the text inside \<open>mutate(...)\<close> only: the buffer \<open>x = 1\<close>
  yields nothing for \<open>x\<close>.
\<close>

theorem C3_counterexample:
  "dict_get (r_scan get_r_patterns (ustr ''x = 1'')) (ustr ''x'') 0 \<noteq> 1"
  by (simp add: r_scan_simple)

text \<open>
  C3 (amended): for the first language the simple-assignment rule is applied to the
  entire buffer: the loop over the \<open>equals\<close> matches counts the identifiers outside the
  keyword list of all matches that the search of \<open>finditer\<close> finds in the whole buffer.
  Wherever in the buffer this search stands at an identifier, optional whitespace and
  \<open>=\<close>: when no second \<open>=\<close> follows, the identifier is matched there, the search goes on
  after the \<open>=\<close>, and an identifier outside the keyword list is counted; when a second
  \<open>=\<close> follows, nothing is matched in the identifier, the whitespace and the \<open>==\<close>, and
  the search goes on after the \<open>==\<close>. For the second language the equals pattern is
  applied only to the argument text of \<open>mutate(...)\<close> calls: for every buffer the scan
  counts the matches of \<open><-\<close> and of \<open>:=\<close> in the buffer and the matches of the equals
  pattern in the \<open>content\<close> group of each match of the \<open>mutate\<close> pattern; each such content
  stands in the buffer between \<open>mutate\<close>, optional whitespace, \<open>(\<close> and the first \<open>)\<close> that
  follows. A buffer that does not contain \<open>mutate\<close> gets nothing from the equals pattern,
  and a buffer with none of the characters \<open><\<close>, \<open>:\<close> and \<open>(\<close>, such as \<open>x = 1\<close>, yields
  the empty mapping.
\<close>

theorem C3_simple_assignment:
  assumes "py_ident_start c" and "\<forall>x \<in> set cs. py_ident_char x"
    and "\<forall>x \<in> set ws. is_space x"
    and "scan_to EQUALS_ASSIGN content ((c # cs) @ ws @ ustr ''='' @ rest) = Some before"
  shows "py_equals_loop get_python_patterns content local_counts
           = tally local_counts (filter (\<lambda>var. var \<notin> set py_keywords)
               (varnames (finditer EQUALS_ASSIGN content)))
     \<and> (rest = [] \<or> hd rest \<noteq> of_char CHR ''='' \<longrightarrow>
          finditer EQUALS_ASSIGN content
            = before @ [(''varname'', c # cs)] # finditer EQUALS_ASSIGN rest
          \<and> (c # cs \<notin> set py_keywords \<longrightarrow>
               py_equals_loop get_python_patterns content local_counts
                 = py_equals_loop get_python_patterns rest
                     (add_count (tally local_counts
                        (filter (\<lambda>var. var \<notin> set py_keywords) (varnames before))) (c # cs) 1)
               \<and> 0 < dict_get (py_scan get_python_patterns content) (c # cs) 0))
     \<and> (\<forall>rest'. rest = of_char CHR ''='' # rest' \<longrightarrow>
          finditer EQUALS_ASSIGN content = before @ finditer EQUALS_ASSIGN rest'
          \<and> py_equals_loop get_python_patterns content local_counts
              = py_equals_loop get_python_patterns rest'
                  (tally local_counts
                     (filter (\<lambda>var. var \<notin> set py_keywords) (varnames before))))
     \<and> r_scan get_r_patterns r_content
         = tally [] (varnames (finditer R_ASSIGN r_content)
             @ varnames (finditer R_WALRUS_ASSIGN r_content)
             @ concat (map (\<lambda>m. varnames (finditer R_EQUALS_ASSIGN (group m ''content'')))
                           (finditer MUTATE_PATTERN r_content)))
     \<and> (\<forall>m \<in> set (finditer MUTATE_PATTERN r_content).
          \<exists>pre w post. r_content
              = pre @ ustr ''mutate'' @ w @ ustr ''('' @ group m ''content'' @ ustr '')'' @ post
            \<and> list_all is_space w \<and> of_char CHR '')'' \<notin> set (group m ''content''))
     \<and> ((\<forall>pre post. r_content \<noteq> pre @ ustr ''mutate'' @ post) \<longrightarrow>
          r_scan get_r_patterns r_content
            = tally [] (varnames (finditer R_ASSIGN r_content)
                @ varnames (finditer R_WALRUS_ASSIGN r_content)))
     \<and> (of_char CHR ''<'' \<notin> set r_content \<and> of_char CHR '':'' \<notin> set r_content
          \<and> of_char CHR ''('' \<notin> set r_content \<longrightarrow> r_scan get_r_patterns r_content = [])"
proof -
  let ?keep = "filter (\<lambda>var. var \<notin> set py_keywords)"
  have scan: "finditer EQUALS_ASSIGN content
      = before @ finditer EQUALS_ASSIGN ((c # cs) @ ws @ ustr ''='' @ rest)"
    using assms(4) by (rule scan_to_finditer)
  have whole: "py_equals_loop get_python_patterns content local_counts
      = tally local_counts (?keep (varnames (finditer EQUALS_ASSIGN content)))"
    by (rule py_equals_loop_tally)
  have assign: "finditer EQUALS_ASSIGN content
          = before @ [(''varname'', c # cs)] # finditer EQUALS_ASSIGN rest
        \<and> (c # cs \<notin> set py_keywords \<longrightarrow>
             py_equals_loop get_python_patterns content local_counts
               = py_equals_loop get_python_patterns rest
                   (add_count (tally local_counts (?keep (varnames before))) (c # cs) 1)
             \<and> 0 < dict_get (py_scan get_python_patterns content) (c # cs) 0)"
    if rest: "rest = [] \<or> hd rest \<noteq> of_char CHR ''=''"
  proof -
    have found: "finditer EQUALS_ASSIGN content
        = before @ [(''varname'', c # cs)] # finditer EQUALS_ASSIGN rest"
      using scan EQUALS_ASSIGN_finditer [OF assms(1-3) rest] by simp
    have names: "varnames (finditer EQUALS_ASSIGN content)
        = varnames before @ (c # cs) # varnames (finditer EQUALS_ASSIGN rest)"
      by (simp only: found varnames_append varnames_Cons)
    have "py_equals_loop get_python_patterns content local_counts
          = py_equals_loop get_python_patterns rest
              (add_count (tally local_counts (?keep (varnames before))) (c # cs) 1)
        \<and> 0 < dict_get (py_scan get_python_patterns content) (c # cs) 0"
      if kw: "c # cs \<notin> set py_keywords"
    proof -
      have "?keep (varnames (finditer EQUALS_ASSIGN content))
          = ?keep (varnames before) @ (c # cs) # ?keep (varnames (finditer EQUALS_ASSIGN rest))"
        using kw by (simp only: names filter_append filter.simps simp_thms if_True)
      then have "py_equals_loop get_python_patterns content local_counts
          = py_equals_loop get_python_patterns rest
              (add_count (tally local_counts (?keep (varnames before))) (c # cs) 1)"
        by (simp only: py_equals_loop_tally tally_append tally_Cons)
      moreover have "c # cs \<in> set (varnames (finditer EQUALS_ASSIGN content))"
        by (simp only: names) simp
      then have "0 < dict_get (py_scan get_python_patterns content) (c # cs) 0"
        using kw by (rule py_scan_counts_equals)
      ultimately show ?thesis by blast
    qed
    with found show ?thesis by blast
  qed
  have comparison: "finditer EQUALS_ASSIGN content = before @ finditer EQUALS_ASSIGN rest'
        \<and> py_equals_loop get_python_patterns content local_counts
            = py_equals_loop get_python_patterns rest'
                (tally local_counts (?keep (varnames before)))"
    if rest: "rest = of_char CHR ''='' # rest'" for rest'
  proof -
    have "\<forall>x \<in> set ((c # cs) @ ws). py_ident_char x \<or> is_space x"
      using assms(1-3) py_start_ident by auto
    then have no_eq: "of_char CHR ''='' \<notin> set ((c # cs) @ ws)"
      using py_ident_not_eq space_not_eq by blast
    have "(c # cs) @ ws @ ustr ''='' @ rest = ((c # cs) @ ws) @ ustr ''=='' @ rest'"
      using rest by (simp add: ustr_def)
    then have "finditer EQUALS_ASSIGN ((c # cs) @ ws @ ustr ''='' @ rest)
        = finditer EQUALS_ASSIGN rest'"
      using EQUALS_ASSIGN_skip_comparison [OF no_eq, of rest'] by (simp only:)
    with scan have found: "finditer EQUALS_ASSIGN content
        = before @ finditer EQUALS_ASSIGN rest'" by (simp only:)
    have "py_equals_loop get_python_patterns content local_counts
        = py_equals_loop get_python_patterns rest'
            (tally local_counts (?keep (varnames before)))"
      by (simp only: py_equals_loop_tally found varnames_append filter_append tally_append)
    with found show ?thesis by blast
  qed
  have r_whole: "r_scan get_r_patterns r_content
      = tally [] (varnames (finditer R_ASSIGN r_content)
          @ varnames (finditer R_WALRUS_ASSIGN r_content)
          @ concat (map (\<lambda>m. varnames (finditer R_EQUALS_ASSIGN (group m ''content'')))
                        (finditer MUTATE_PATTERN r_content)))"
    by (rule r_scan_occurrences)
  have calls: "\<forall>m \<in> set (finditer MUTATE_PATTERN r_content).
      \<exists>pre w post. r_content
          = pre @ ustr ''mutate'' @ w @ ustr ''('' @ group m ''content'' @ ustr '')'' @ post
        \<and> list_all is_space w \<and> of_char CHR '')'' \<notin> set (group m ''content'')"
    using mutate_elems by blast
  have outside: "r_scan get_r_patterns r_content
      = tally [] (varnames (finditer R_ASSIGN r_content)
          @ varnames (finditer R_WALRUS_ASSIGN r_content))"
    if "\<forall>pre post. r_content \<noteq> pre @ ustr ''mutate'' @ post"
  proof -
    from that have "finditer MUTATE_PATTERN r_content = []"
      by (intro no_mutate_call) blast
    then show ?thesis by (simp only: r_scan_occurrences) simp
  qed
  have no_call: "r_scan get_r_patterns r_content = []"
    if "of_char CHR ''<'' \<notin> set r_content \<and> of_char CHR '':'' \<notin> set r_content
          \<and> of_char CHR ''('' \<notin> set r_content"
    using that by (intro r_scan_needs) simp_all
  have a2: "rest = [] \<or> hd rest \<noteq> of_char CHR ''='' \<longrightarrow>
          finditer EQUALS_ASSIGN content
            = before @ [(''varname'', c # cs)] # finditer EQUALS_ASSIGN rest
          \<and> (c # cs \<notin> set py_keywords \<longrightarrow>
               py_equals_loop get_python_patterns content local_counts
                 = py_equals_loop get_python_patterns rest
                     (add_count (tally local_counts (?keep (varnames before))) (c # cs) 1)
               \<and> 0 < dict_get (py_scan get_python_patterns content) (c # cs) 0)"
    by (rule impI, rule assign)
  have a3: "\<forall>rest'. rest = of_char CHR ''='' # rest' \<longrightarrow>
          finditer EQUALS_ASSIGN content = before @ finditer EQUALS_ASSIGN rest'
          \<and> py_equals_loop get_python_patterns content local_counts
              = py_equals_loop get_python_patterns rest'
                  (tally local_counts (?keep (varnames before)))"
    by (intro allI impI, rule comparison)
  have a6: "(\<forall>pre post. r_content \<noteq> pre @ ustr ''mutate'' @ post) \<longrightarrow>
          r_scan get_r_patterns r_content
            = tally [] (varnames (finditer R_ASSIGN r_content)
                @ varnames (finditer R_WALRUS_ASSIGN r_content))"
    by (rule impI, rule outside)
  have a7: "of_char CHR ''<'' \<notin> set r_content \<and> of_char CHR '':'' \<notin> set r_content
          \<and> of_char CHR ''('' \<notin> set r_content \<longrightarrow> r_scan get_r_patterns r_content = []"
    by (rule impI, rule no_call)
  show ?thesis
    by (rule conjI [OF whole conjI [OF a2 conjI [OF a3 conjI [OF r_whole
          conjI [OF calls conjI [OF a6 a7]]]]]])
qed

theorem C3_simple_assignment_witness:
  "py_ident_start (of_char CHR ''x'') \<and> is_space (of_char CHR '' '')
   \<and> scan_to EQUALS_ASSIGN (ustr ''a = 1\<newline>x = 2'') (ustr ''x = 2'')
       = Some [[(''varname'', ustr ''a'')]]
   \<and> hd (ustr '' 2'') \<noteq> of_char CHR ''='' \<and> ustr ''x'' \<notin> set py_keywords
   \<and> finditer EQUALS_ASSIGN (ustr ''a = 1\<newline>x = 2'')
       = [[(''varname'', ustr ''a'')]] @ [(''varname'', ustr ''x'')]
           # finditer EQUALS_ASSIGN (ustr '' 2'')
   \<and> 0 < dict_get (py_scan get_python_patterns (ustr ''a = 1\<newline>x = 2'')) (ustr ''x'') 0
   \<and> scan_to EQUALS_ASSIGN (ustr ''a = 1\<newline>if x == 2: y = 3'') (ustr ''x == 2: y = 3'')
       = Some [[(''varname'', ustr ''a'')]]
   \<and> finditer EQUALS_ASSIGN (ustr ''a = 1\<newline>if x == 2: y = 3'')
       = [[(''varname'', ustr ''a'')]] @ finditer EQUALS_ASSIGN (ustr '' 2: y = 3'')
   \<and> py_scan get_python_patterns (ustr ''a = 1\<newline>if x == 2: y = 3'')
       = [(ustr ''a'', 1), (ustr ''y'', 1)]
   \<and> finditer MUTATE_PATTERN (ustr ''df <- mutate(df, y = x + 1)'')
       = [[(''content'', ustr ''df, y = x + 1'')]]
   \<and> (\<exists>pre w post. ustr ''df <- mutate(df, y = x + 1)''
          = pre @ ustr ''mutate'' @ w @ ustr ''('' @ ustr ''df, y = x + 1'' @ ustr '')'' @ post
        \<and> list_all is_space w \<and> of_char CHR '')'' \<notin> set (ustr ''df, y = x + 1''))
   \<and> r_scan get_r_patterns (ustr ''df <- mutate(df, y = x + 1)'')
       = [(ustr ''df'', 1), (ustr ''y'', 1)]
   \<and> (\<forall>pre post. ustr ''x = 1'' \<noteq> pre @ ustr ''mutate'' @ post)
   \<and> r_scan get_r_patterns (ustr ''x = 1'')
       = tally [] (varnames (finditer R_ASSIGN (ustr ''x = 1''))
           @ varnames (finditer R_WALRUS_ASSIGN (ustr ''x = 1'')))
   \<and> of_char CHR ''<'' \<notin> set (ustr ''x = 1'') \<and> of_char CHR '':'' \<notin> set (ustr ''x = 1'')
   \<and> of_char CHR ''('' \<notin> set (ustr ''x = 1'')
   \<and> r_scan get_r_patterns (ustr ''x = 1'') = []"
proof -
  let ?c1 = "ustr ''a = 1\<newline>x = 2''" and ?c2 = "ustr ''a = 1\<newline>if x == 2: y = 3''"
  let ?r1 = "ustr ''df <- mutate(df, y = x + 1)''" and ?r2 = "ustr ''x = 1''"
  have h1: "py_ident_start (of_char CHR ''x'')" by (simp add: class_defs)
  have h2: "\<forall>x \<in> set []. py_ident_char x" by simp
  have h3: "\<forall>x \<in> set (ustr '' ''). is_space x" by (simp add: class_defs)
  have sp: "is_space (of_char CHR '' '')" by (simp add: class_defs)
  have h4: "scan_to EQUALS_ASSIGN ?c1
      ((of_char CHR ''x'' # []) @ ustr '' '' @ ustr ''='' @ ustr '' 2'')
      = Some [[(''varname'', ustr ''a'')]]"
    using two_assignments_scan_to by (simp add: ustr_def)
  have h4': "scan_to EQUALS_ASSIGN ?c2
      ((of_char CHR ''x'' # []) @ ustr '' '' @ ustr ''='' @ ustr ''= 2: y = 3'')
      = Some [[(''varname'', ustr ''a'')]]"
    using comparison_scan_to by (simp add: ustr_def)
  have rest: "ustr '' 2'' = [] \<or> hd (ustr '' 2'') \<noteq> of_char CHR ''=''"
    by (simp add: ustr_def)
  have rest1: "hd (ustr '' 2'') \<noteq> of_char CHR ''=''" by (simp add: ustr_def)
  have rest': "ustr ''= 2: y = 3'' = of_char CHR ''='' # ustr '' 2: y = 3''"
    by (simp add: ustr_def)
  have kw: "of_char CHR ''x'' # [] \<notin> set py_keywords" by (simp add: py_keywords_def ustr_def)
  have kw1: "ustr ''x'' \<notin> set py_keywords" by (simp add: py_keywords_def ustr_def)
  have far: "\<forall>pre post. ?r2 \<noteq> pre @ ustr ''mutate'' @ post"
  proof (intro allI notI)
    fix pre post assume "?r2 = pre @ ustr ''mutate'' @ post"
    then have "length ?r2 = length (pre @ ustr ''mutate'' @ post)" by (rule arg_cong)
    then show False by (simp add: ustr_def)
  qed
  have n1: "of_char CHR ''<'' \<notin> set ?r2" and n2: "of_char CHR '':'' \<notin> set ?r2"
    and n3: "of_char CHR ''('' \<notin> set ?r2"
    by (simp_all add: ustr_def)
  note first = C3_simple_assignment [OF h1 h2 h3 h4, of "[]" ?r1]
  note second = C3_simple_assignment [OF h1 h2 h3 h4', of "[]" ?r2]
  note assign = first [THEN conjunct2, THEN conjunct1, THEN mp, OF rest]
  note counted = assign [THEN conjunct2, THEN mp, OF kw, THEN conjunct2]
  note compare = second [THEN conjunct2, THEN conjunct2, THEN conjunct1, THEN spec, THEN mp,
      OF rest', THEN conjunct1]
  note calls = first [THEN conjunct2, THEN conjunct2, THEN conjunct2, THEN conjunct2,
      THEN conjunct1]
  note outside = second [THEN conjunct2, THEN conjunct2, THEN conjunct2, THEN conjunct2,
      THEN conjunct2, THEN conjunct1, THEN mp, OF far]
  note empty = second [THEN conjunct2, THEN conjunct2, THEN conjunct2, THEN conjunct2,
      THEN conjunct2, THEN conjunct2, THEN mp, OF conjI [OF n1 conjI [OF n2 n3]]]
  have a: "finditer EQUALS_ASSIGN ?c1
      = [[(''varname'', ustr ''a'')]] @ [(''varname'', ustr ''x'')]
          # finditer EQUALS_ASSIGN (ustr '' 2'')"
    using assign [THEN conjunct1] by (simp add: ustr_def)
  have b: "0 < dict_get (py_scan get_python_patterns ?c1) (ustr ''x'') 0"
    using counted by (simp add: ustr_def)
  have "[(''content'', ustr ''df, y = x + 1'')] \<in> set (finditer MUTATE_PATTERN ?r1)"
    by (simp add: mutate_call_finditer)
  from bspec [OF calls this]
  have c: "\<exists>pre w post. ?r1
          = pre @ ustr ''mutate'' @ w @ ustr ''('' @ ustr ''df, y = x + 1'' @ ustr '')'' @ post
        \<and> list_all is_space w \<and> of_char CHR '')'' \<notin> set (ustr ''df, y = x + 1'')"
    by (simp add: group_def)
  show ?thesis
    by (intro conjI) (fact h1 sp two_assignments_scan_to rest1 kw1 a b comparison_scan_to
        compare py_scan_comparison mutate_call_finditer c r_scan_mutate_call far outside
        n1 n2 n3 empty)+
qed

text \<open>
  C10: inside the argument list of \<open>mutate(...)\<close> the equals pattern has no lookahead,
  so a comparison counts as an assignment: for every R identifier \<open>id\<close> and every text
  \<open>e\<close> without the characters \<open>=\<close>, \<open>)\<close>, \<open><\<close> and \<open>:\<close>, scanning the buffer
  \<open>mutate(id == e)\<close> yields exactly one occurrence of \<open>id\<close>.
\<close>

theorem C10_mutate_comparison:
  assumes "is_letter c" and "\<forall>x \<in> set cs. r_ident_char x"
    and "of_char CHR ''='' \<notin> set e" and "of_char CHR '')'' \<notin> set e"
    and "of_char CHR ''<'' \<notin> set e" and "of_char CHR '':'' \<notin> set e"
  shows "r_scan get_r_patterns (ustr ''mutate('' @ (c # cs) @ ustr '' == '' @ e @ ustr '')'')
         = [(c # cs, 1)]"
proof -
  let ?content = "(c # cs) @ ustr '' == '' @ e"
  let ?buffer = "ustr ''mutate('' @ (c # cs) @ ustr '' == '' @ e @ ustr '')''"
  have buffer: "?buffer = ustr ''mutate'' @ ustr ''('' @ ?content @ ustr '')'' @ []"
    by (simp add: ustr_def)
  have ident: "\<forall>x \<in> set (c # cs). r_ident_char x"
    using assms(1,2) by (simp add: letter_r_ident)
  have no_lt: "of_char CHR ''<'' \<notin> set ?buffer"
    using ident assms(5) r_ident_not_special by (auto simp: ustr_def)
  have no_colon: "of_char CHR '':'' \<notin> set ?buffer"
    using ident assms(6) r_ident_not_special by (auto simp: ustr_def)
  have no_close: "of_char CHR '')'' \<notin> set ?content"
    using ident assms(4) r_ident_not_special by (auto simp: ustr_def)
  have assign: "finditer R_ASSIGN ?buffer = []"
    using R_ASSIGN_needs no_lt by (rule finditer_needs)
  have walrus: "finditer R_WALRUS_ASSIGN ?buffer = []"
    using R_WALRUS_needs no_colon by (rule finditer_needs)
  have "finditer MUTATE_PATTERN [] = []"
    by (rule finditer_Nil_no_match, rule MUTATE_needs) simp
  moreover have "finditer MUTATE_PATTERN ?buffer
      = [(''content'', ?content)] # finditer MUTATE_PATTERN []"
    unfolding buffer by (rule finditer_step [OF MUTATE_first [OF no_close]]) (simp add: ustr_def)
  ultimately have block: "finditer MUTATE_PATTERN ?buffer = [[(''content'', ?content)]]"
    by simp
  have inner: "finditer R_EQUALS_ASSIGN ?content = [[(''varname'', c # cs)]]"
    using assms(1-3) by (rule R_EQUALS_comparison)
  from assign walrus block inner show ?thesis
    by (simp add: r_scan_def r_assign_loop_def r_walrus_loop_def r_mutate_loop_def
        get_r_patterns_def group_def add_count_def)
qed

theorem C10_mutate_comparison_witness:
  "is_letter (of_char CHR ''i'') \<and> r_ident_char (of_char CHR ''d'')
   \<and> of_char CHR ''='' \<notin> set (ustr ''e'') \<and> of_char CHR '')'' \<notin> set (ustr ''e'')
   \<and> of_char CHR ''<'' \<notin> set (ustr ''e'') \<and> of_char CHR '':'' \<notin> set (ustr ''e'')
   \<and> r_scan get_r_patterns (ustr ''mutate(id == e)'') = [(ustr ''id'', 1)]"
proof -
  have h1: "is_letter (of_char CHR ''i'')" by (simp add: class_defs)
  have h2: "\<forall>x \<in> set (ustr ''d''). r_ident_char x" by (simp add: class_defs)
  have h3: "of_char CHR ''='' \<notin> set (ustr ''e'')" by (simp add: ustr_def)
  have h4: "of_char CHR '')'' \<notin> set (ustr ''e'')" by (simp add: ustr_def)
  have h5: "of_char CHR ''<'' \<notin> set (ustr ''e'')" by (simp add: ustr_def)
  have h6: "of_char CHR '':'' \<notin> set (ustr ''e'')" by (simp add: ustr_def)
  have d: "r_ident_char (of_char CHR ''d'')" by (simp add: class_defs)
  from C10_mutate_comparison [OF h1 h2 h3 h4 h5 h6] h1 d h3 h4 h5 h6
  show ?thesis by (simp add: ustr_def)
qed

end
